theory Spec2Isabelle
  imports Complex_Main
begin

section \<open>The room-cleaning simulation of \<^verbatim>\<open>agent_clean.py\<close>\<close>

text \<open>
  The program is a Python simulation: a grid of cells (\<^verbatim>\<open>CeldaAgent\<close>), some of them
  dirty, and cleaner robots (\<^verbatim>\<open>LimpiadorAgent\<close>) that clean the cell they stand on or
  move to a neighbouring cell. Objects are mutable and shared between the grid and the
  scheduler, so the model keeps an explicit store: an occupant of the grid is a tagged
  reference (the class of the object and its \<^verbatim>\<open>unique_id\<close>), and the attributes of the
  objects live in maps from that identifier to the attribute's value.
  Exceptions are values of the type \<open>error\<close>; a function that can raise returns
  \<open>error + 'a\<close>.
\<close>

subsection \<open>Errors\<close>

datatype error =
    ValueError          \<comment> \<open>\<^verbatim>\<open>random.sample\<close>: sample larger than population or negative\<close>
  | IndexError          \<comment> \<open>indexing the grid's list of lists out of range\<close>
  | ZeroDivisionError   \<comment> \<open>\<^verbatim>\<open>celdas_limpias / self.celdas_sucias\<close> with a zero divisor\<close>
  | OutOfBounds         \<comment> \<open>the grid's "Point out of bounds, and space non-toroidal."\<close>

text \<open>A \<^verbatim>\<open>for\<close> loop whose body can raise: the first error ends the loop.\<close>

fun for_each :: "('a \<Rightarrow> 's \<Rightarrow> error + 's) \<Rightarrow> 'a list \<Rightarrow> 's \<Rightarrow> error + 's" where
  "for_each f [] s = Inr s"
| "for_each f (x # xs) s = (case f x s of Inl e \<Rightarrow> Inl e | Inr s' \<Rightarrow> for_each f xs s')"

subsection \<open>The grid\<close>

type_synonym coord = "nat \<times> nat"

text \<open>
  \<^verbatim>\<open>isinstance(obj, CeldaAgent)\<close> and \<^verbatim>\<open>isinstance(obj, LimpiadorAgent)\<close> read the
  constructor; the number is the object's \<^verbatim>\<open>unique_id\<close> within its class.
\<close>

datatype occupant = Celda nat | Limpiador nat

text \<open>
  Modelled from the spec: the grid is the class \<^verbatim>\<open>MultiGrid\<close> of the library the program
  imports (\<^verbatim>\<open>mesa.space\<close>); its code is not part of the repository. The spec's section 4.1
  describes it: a bounded lattice that maps each coordinate to the sequence of its
  occupants, with \<^verbatim>\<open>place\<close>, \<^verbatim>\<open>occupants\<close>, \<^verbatim>\<open>neighbors\<close> (Moore neighbourhood clipped
  to the edges, no wrap-around) and \<^verbatim>\<open>move\<close>. The definitions below follow that
  description and the library's method names; the order of the coordinates in a
  neighbourhood (first coordinate outermost) and the errors for a coordinate outside the
  grid are the library's.
\<close>

record MultiGrid =
  width :: nat
  height :: nat
  contents :: "coord \<Rightarrow> occupant list"

text \<open>
  \<^verbatim>\<open>MultiGrid(M, N, torus=False)\<close>. \<open>MultiGrid_init\<close> is the grid's list of lists: \<^verbatim>\<open>M\<close>
  columns of \<^verbatim>\<open>N\<close> empty cells, built with \<^verbatim>\<open>range\<close>, so a dimension of 0 gives no cell at
  all. \<open>MultiGrid_new\<close> is the constructor: besides the lists it allocates an array of
  shape \<^verbatim>\<open>(width, height)\<close> (the library does so from its version 2.2 on), and that
  allocation raises \<^verbatim>\<open>ValueError\<close> for a negative dimension. Nothing in the constructor
  refuses a dimension of 0.
\<close>

definition MultiGrid_init :: "int \<Rightarrow> int \<Rightarrow> MultiGrid" where
  "MultiGrid_init w h = \<lparr>width = nat w, height = nat h, contents = (\<lambda>_. [])\<rparr>"

definition MultiGrid_new :: "int \<Rightarrow> int \<Rightarrow> error + MultiGrid" where
  "MultiGrid_new w h = (if w < 0 \<or> h < 0 then Inl ValueError else Inr (MultiGrid_init w h))"

definition out_of_bounds :: "MultiGrid \<Rightarrow> coord \<Rightarrow> bool" where
  "out_of_bounds g p = (width g \<le> fst p \<or> height g \<le> snd p)"

text \<open>
  \<^verbatim>\<open>get_cell_list_contents([pos])\<close>: the occupants of one cell, in the order they were
  placed. The program calls it only with an agent's own position, with a coordinate of a
  neighbourhood and with a recorded dirty position.
\<close>

definition get_cell_list_contents :: "MultiGrid \<Rightarrow> coord \<Rightarrow> occupant list" where
  "get_cell_list_contents g p = contents g p"

text \<open>\<^verbatim>\<open>place_agent\<close> appends to the cell's list; outside the grid the indexing raises.\<close>

definition place_agent :: "MultiGrid \<Rightarrow> occupant \<Rightarrow> coord \<Rightarrow> error + MultiGrid" where
  "place_agent g a p =
     (if out_of_bounds g p then Inl IndexError
      else Inr (g\<lparr>contents := (contents g)(p := contents g p @ [a])\<rparr>))"

text \<open>\<^verbatim>\<open>remove_agent\<close> is \<^verbatim>\<open>list.remove\<close> on the cell's list, which raises when the
  agent is not there.\<close>

definition remove_agent :: "MultiGrid \<Rightarrow> occupant \<Rightarrow> coord \<Rightarrow> error + MultiGrid" where
  "remove_agent g a p =
     (if a \<in> set (contents g p)
      then Inr (g\<lparr>contents := (contents g)(p := remove1 a (contents g p))\<rparr>)
      else Inl ValueError)"

text \<open>\<^verbatim>\<open>move_agent(agent, pos)\<close>: check the target, remove the agent from the cell it
  is in, place it at the target.\<close>

definition move_agent :: "MultiGrid \<Rightarrow> occupant \<Rightarrow> coord \<Rightarrow> coord \<Rightarrow> error + MultiGrid" where
  "move_agent g a old new =
     (if out_of_bounds g new then Inl OutOfBounds
      else case remove_agent g a old of
             Inl e \<Rightarrow> Inl e
           | Inr g' \<Rightarrow> place_agent g' a new)"

text \<open>
  \<^verbatim>\<open>get_neighborhood(pos, moore=True, include_center=False)\<close> with radius 1 on a
  non-toroidal grid: the two ranges are clipped at 0 and at the grid's extent, and the
  centre is dropped. (\<open>x - 1\<close> on \<open>nat\<close> is \<^verbatim>\<open>max(0, x - 1)\<close>.)
\<close>

definition get_neighborhood :: "MultiGrid \<Rightarrow> coord \<Rightarrow> coord list" where
  "get_neighborhood g p =
     (let x = fst p; y = snd p;
          x_range = [x - 1 ..< min (width g) (x + 2)];
          y_range = [y - 1 ..< min (height g) (y + 2)]
      in removeAll p (concat (map (\<lambda>new_x. map (\<lambda>new_y. (new_x, new_y)) y_range) x_range)))"

subsection \<open>The model's state\<close>

text \<open>
  One record holds what \<^verbatim>\<open>HabitacionModel\<close> and the objects it owns hold:
  \<^item> \<open>M\<close>, \<open>N\<close>, \<open>num_agentes\<close>, \<open>celdas_sucias\<close>, \<open>grid\<close>, \<open>running\<close>, \<open>dirty_positions\<close>:
    the attributes of the model (\<open>dirty_positions\<close> is a Python set: a list without
    repetitions here, extended with \<open>List.insert\<close>);
  \<^item> \<open>sucia\<close>: the attribute \<^verbatim>\<open>sucia\<close> of each \<^verbatim>\<open>CeldaAgent\<close>, by \<^verbatim>\<open>unique_id\<close>;
  \<^item> \<open>pos\<close>, \<open>movimientos\<close>: the attributes of each \<^verbatim>\<open>LimpiadorAgent\<close>, by \<^verbatim>\<open>unique_id\<close>;
  \<^item> \<open>schedule_agents\<close>, \<open>schedule_steps\<close>: the scheduler's agents, in the order they
    were added, and its step counter;
  \<^item> \<open>datacollector\<close>: the rows collected so far (percentage of clean cells, total
    movements);
  \<^item> \<open>random\<close>, \<open>drawn\<close>: the model's random generator, as the sequence of the raw
    numbers it will produce and how many of them have been consumed.
  The percentage is a Python float; it is modelled as an exact rational.
\<close>

record HabitacionModel =
  M :: int
  N :: int
  num_agentes :: int
  celdas_sucias :: int
  grid :: MultiGrid
  running :: bool
  dirty_positions :: "coord list"
  sucia :: "nat \<Rightarrow> bool"
  pos :: "nat \<Rightarrow> coord"
  movimientos :: "nat \<Rightarrow> nat"
  schedule_agents :: "nat list"
  schedule_steps :: nat
  datacollector :: "(rat \<times> nat) list"
  random :: "nat \<Rightarrow> nat"
  drawn :: nat

subsection \<open>\<^verbatim>\<open>CeldaAgent\<close>\<close>

text \<open>\<^verbatim>\<open>CeldaAgent.limpiar\<close>: \<^verbatim>\<open>self.sucia = False\<close>.\<close>

definition limpiar :: "nat \<Rightarrow> HabitacionModel \<Rightarrow> HabitacionModel" where
  "limpiar c m = m\<lparr>sucia := (sucia m)(c := False)\<rparr>"

subsection \<open>\<^verbatim>\<open>LimpiadorAgent\<close>\<close>

text \<open>\<^verbatim>\<open>isinstance(obj, CeldaAgent) and obj.sucia\<close>\<close>

definition es_celda_sucia :: "HabitacionModel \<Rightarrow> occupant \<Rightarrow> bool" where
  "es_celda_sucia m obj = (case obj of Celda c \<Rightarrow> sucia m c | Limpiador _ \<Rightarrow> False)"

text \<open>\<^verbatim>\<open>isinstance(a, LimpiadorAgent)\<close>\<close>

definition es_limpiador :: "occupant \<Rightarrow> bool" where
  "es_limpiador a = (case a of Celda _ \<Rightarrow> False | Limpiador _ \<Rightarrow> True)"

text \<open>The body of the loop \<^verbatim>\<open>for obj in celda\<close> of \<^verbatim>\<open>LimpiadorAgent.step\<close>.\<close>

definition limpiar_si_sucia :: "occupant \<Rightarrow> HabitacionModel \<Rightarrow> HabitacionModel" where
  "limpiar_si_sucia obj m =
     (case obj of
        Celda c \<Rightarrow> if sucia m c then limpiar c m else m
      | Limpiador _ \<Rightarrow> m)"

text \<open>The list comprehension \<^verbatim>\<open>valid_moves\<close> of \<^verbatim>\<open>mover\<close>.\<close>

definition valid_moves :: "HabitacionModel \<Rightarrow> nat \<Rightarrow> coord list" where
  "valid_moves m i =
     filter (\<lambda>p. \<not> list_ex es_limpiador (get_cell_list_contents (grid m) p))
            (get_neighborhood (grid m) (pos m i))"

text \<open>
  \<^verbatim>\<open>self.random.choice(valid_moves)\<close> is \<^verbatim>\<open>seq[randbelow(len(seq))]\<close>: the generator's
  next raw number, reduced to an index of the sequence. It is called on a non-empty
  sequence only.
\<close>

definition choice_index :: "HabitacionModel \<Rightarrow> nat \<Rightarrow> nat" where
  "choice_index m n = random m (drawn m) mod n"

text \<open>\<^verbatim>\<open>LimpiadorAgent.mover\<close>, for the cleaner with identifier \<open>i\<close>.\<close>

definition mover :: "nat \<Rightarrow> HabitacionModel \<Rightarrow> error + HabitacionModel" where
  "mover i m =
     (let valid = valid_moves m i
      in if valid \<noteq> [] then
           (let nueva_posicion = valid ! choice_index m (length valid);
                m1 = m\<lparr>drawn := drawn m + 1\<rparr>
            in case move_agent (grid m1) (Limpiador i) (pos m1 i) nueva_posicion of
                 Inl e \<Rightarrow> Inl e
               | Inr g \<Rightarrow>
                   Inr (m1\<lparr>grid := g,
                           pos := (pos m1)(i := nueva_posicion),
                           movimientos := (movimientos m1)(i := movimientos m1 i + 1)\<rparr>))
         else Inr m)"

text \<open>\<^verbatim>\<open>LimpiadorAgent.step\<close>, for the cleaner with identifier \<open>i\<close>.\<close>

definition Limpiador_step :: "nat \<Rightarrow> HabitacionModel \<Rightarrow> error + HabitacionModel" where
  "Limpiador_step i m =
     (let celda = get_cell_list_contents (grid m) (pos m i)
      in if list_ex (es_celda_sucia m) celda
         then Inr (fold limpiar_si_sucia celda m)
         else mover i m)"

subsection \<open>The scheduler\<close>

text \<open>
  The scheduler is the library's \<^verbatim>\<open>SimultaneousActivation\<close>, whose code is not in the
  repository. Its \<^verbatim>\<open>step\<close> calls \<^verbatim>\<open>step()\<close> of every agent in the order they were added,
  then \<^verbatim>\<open>advance()\<close> of every agent, then counts the step. \<^verbatim>\<open>LimpiadorAgent\<close> defines no
  \<^verbatim>\<open>advance\<close> (the inherited one does nothing) and its \<^verbatim>\<open>step\<close> changes the grid and the
  cells itself, so a round is the agents' \<^verbatim>\<open>step\<close> methods run one after the other.
  \<open>activate\<close> takes the order as an argument.
\<close>

definition activate :: "nat list \<Rightarrow> HabitacionModel \<Rightarrow> error + HabitacionModel" where
  "activate order m = for_each Limpiador_step order m"

definition schedule_step :: "HabitacionModel \<Rightarrow> error + HabitacionModel" where
  "schedule_step m =
     (case activate (schedule_agents m) m of
        Inl e \<Rightarrow> Inl e
      | Inr m' \<Rightarrow> Inr (m'\<lparr>schedule_steps := schedule_steps m' + 1\<rparr>))"

subsection \<open>\<^verbatim>\<open>HabitacionModel\<close>: metrics and step\<close>

text \<open>The generator expression of \<^verbatim>\<open>contar_celdas_limpias\<close>: one for every content
  with \<^verbatim>\<open>isinstance(content, CeldaAgent) and not content.sucia\<close> found at a recorded
  dirty position.\<close>

definition es_celda_limpia :: "HabitacionModel \<Rightarrow> occupant \<Rightarrow> bool" where
  "es_celda_limpia m content =
     (case content of Celda c \<Rightarrow> \<not> sucia m c | Limpiador _ \<Rightarrow> False)"

definition celdas_limpias :: "HabitacionModel \<Rightarrow> nat" where
  "celdas_limpias m =
     length (filter (es_celda_limpia m)
               (concat (map (get_cell_list_contents (grid m)) (dirty_positions m))))"

definition contar_celdas_limpias :: "HabitacionModel \<Rightarrow> error + rat" where
  "contar_celdas_limpias m =
     (if celdas_sucias m = 0 then Inl ZeroDivisionError
      else Inr (of_nat (celdas_limpias m) / of_int (celdas_sucias m) * 100))"

definition contar_movimientos :: "HabitacionModel \<Rightarrow> nat" where
  "contar_movimientos m = sum_list (map (movimientos m) (schedule_agents m))"

text \<open>\<^verbatim>\<open>self.datacollector.collect(self)\<close> calls the two reporters in the order they were
  registered and appends what they return.\<close>

definition collect :: "HabitacionModel \<Rightarrow> error + HabitacionModel" where
  "collect m =
     (case contar_celdas_limpias m of
        Inl e \<Rightarrow> Inl e
      | Inr p \<Rightarrow> Inr (m\<lparr>datacollector := datacollector m @ [(p, contar_movimientos m)]\<rparr>))"

text \<open>\<^verbatim>\<open>HabitacionModel.step\<close> (the \<^verbatim>\<open>print\<close> is left out).\<close>

definition step :: "HabitacionModel \<Rightarrow> error + HabitacionModel" where
  "step m =
     (case collect m of
        Inl e \<Rightarrow> Inl e
      | Inr m1 \<Rightarrow>
          (case contar_celdas_limpias m1 of
             Inl e \<Rightarrow> Inl e
           | Inr porcentaje_limpias \<Rightarrow>
               if porcentaje_limpias \<ge> 100 then Inr (m1\<lparr>running := False\<rparr>)
               else schedule_step m1))"

text \<open>\<open>n\<close> successive calls of \<^verbatim>\<open>step\<close>.\<close>

fun steps :: "nat \<Rightarrow> HabitacionModel \<Rightarrow> error + HabitacionModel" where
  "steps 0 m = Inr m"
| "steps (Suc n) m = (case step m of Inl e \<Rightarrow> Inl e | Inr m' \<Rightarrow> steps n m')"

subsection \<open>\<^verbatim>\<open>HabitacionModel.__init__\<close>\<close>

text \<open>
  \<^verbatim>\<open>self.random.sample(range(total_celdas), celdas_sucias)\<close> raises \<^verbatim>\<open>ValueError\<close>
  unless \<^verbatim>\<open>0 <= k <= len(population)\<close>; otherwise it returns \<open>k\<close> distinct elements of
  the population. Which ones is the generator's business: the outcome is an argument,
  and \<open>sample_outcome\<close> says what the library promises about it.
\<close>

definition random_sample :: "int \<Rightarrow> int \<Rightarrow> nat list \<Rightarrow> error + nat list" where
  "random_sample n k outcome =
     (if 0 \<le> k \<and> k \<le> max 0 n then Inr outcome else Inl ValueError)"

definition sample_outcome :: "int \<Rightarrow> int \<Rightarrow> nat list \<Rightarrow> bool" where
  "sample_outcome n k outcome =
     (distinct outcome \<and> int (length outcome) = k \<and> list_all (\<lambda>u. int u < n) outcome)"

text \<open>The body of the two nested loops over \<^verbatim>\<open>range(M)\<close> and \<^verbatim>\<open>range(N)\<close>; the loop
  state is the local \<^verbatim>\<open>unique_id\<close> and the model.\<close>

definition celda_body ::
  "nat list \<Rightarrow> nat \<Rightarrow> nat \<Rightarrow> nat \<times> HabitacionModel \<Rightarrow> error + nat \<times> HabitacionModel" where
  "celda_body posiciones_sucias i j st =
     (let unique_id = fst st; m = snd st;
          m1 = m\<lparr>sucia := (sucia m)(unique_id := False)\<rparr>;
          m2 = (if unique_id \<in> set posiciones_sucias
                then m1\<lparr>sucia := (sucia m1)(unique_id := True),
                        dirty_positions := List.insert (i, j) (dirty_positions m1)\<rparr>
                else m1)
      in case place_agent (grid m2) (Celda unique_id) (i, j) of
           Inl e \<Rightarrow> Inl e
         | Inr g \<Rightarrow> Inr (unique_id + 1, m2\<lparr>grid := g\<rparr>))"

text \<open>The body of the loop over \<^verbatim>\<open>range(num_agentes)\<close>.\<close>

definition limpiador_body ::
  "nat \<Rightarrow> nat \<times> HabitacionModel \<Rightarrow> error + nat \<times> HabitacionModel" where
  "limpiador_body i st =
     (let unique_id = fst st; m = snd st;
          m1 = m\<lparr>movimientos := (movimientos m)(i := 0)\<rparr>
      in case place_agent (grid m1) (Limpiador i) (1, 1) of
           Inl e \<Rightarrow> Inl e
         | Inr g \<Rightarrow>
             Inr (unique_id + 1,
                  m1\<lparr>grid := g, pos := (pos m1)(i := (1, 1)),
                     schedule_agents := schedule_agents m1 @ [i]\<rparr>))"

text \<open>
  \<^verbatim>\<open>HabitacionModel(M, N, num_agentes, celdas_sucias)\<close>. The two further arguments are
  the random generator's part: the outcome of the sample and the raw numbers the later
  calls of \<^verbatim>\<open>choice\<close> will get. The grid is built first, then the sample is drawn, then
  the cells and the cleaners are placed; \<^verbatim>\<open>__init__\<close> compares none of its parameters
  with anything, so every failure is one of a call it makes.
\<close>

definition create ::
  "int \<Rightarrow> int \<Rightarrow> int \<Rightarrow> int \<Rightarrow> nat list \<Rightarrow> (nat \<Rightarrow> nat) \<Rightarrow> error + HabitacionModel" where
  "create rows cols agentes sucias outcome rnd =
     (case MultiGrid_new rows cols of
        Inl e \<Rightarrow> Inl e
      | Inr g \<Rightarrow>
         (let m0 = \<lparr>M = rows, N = cols, num_agentes = agentes, celdas_sucias = sucias,
                    grid = g, running = True, dirty_positions = [],
                    sucia = (\<lambda>_. False), pos = (\<lambda>_. (0, 0)), movimientos = (\<lambda>_. 0),
                    schedule_agents = [], schedule_steps = 0, datacollector = [],
                    random = rnd, drawn = 0\<rparr>;
              total_celdas = rows * cols
          in case random_sample total_celdas sucias outcome of
               Inl e \<Rightarrow> Inl e
             | Inr posiciones_sucias \<Rightarrow>
                (case for_each (\<lambda>i. for_each (\<lambda>j. celda_body posiciones_sucias i j) [0 ..< nat cols])
                        [0 ..< nat rows] (0, m0) of
                   Inl e \<Rightarrow> Inl e
                 | Inr st \<Rightarrow>
                    (case for_each limpiador_body [0 ..< nat agentes] st of
                       Inl e \<Rightarrow> Inl e
                     | Inr st' \<Rightarrow> Inr (snd st')))))"

subsection \<open>The spec's Moore neighbourhood\<close>

text \<open>
  Written from the spec's words, to compare \<open>valid_moves\<close> with: a coordinate \<open>q\<close> is a
  candidate for cleaner \<open>i\<close> when it is in the Moore neighbourhood of the cleaner's
  position (at most one step away in each direction, diagonals included), is not that
  position itself, is inside the grid (no wrap-around), and no cleaner is among its
  occupants. It is written with the grid's contents only, not with the program's own
  tests.
\<close>

definition moore_free :: "HabitacionModel \<Rightarrow> nat \<Rightarrow> coord \<Rightarrow> bool" where
  "moore_free m i q =
     (\<bar>int (fst q) - int (fst (pos m i))\<bar> \<le> 1 \<and> \<bar>int (snd q) - int (snd (pos m i))\<bar> \<le> 1 \<and>
      q \<noteq> pos m i \<and>
      fst q < width (grid m) \<and> snd q < height (grid m) \<and>
      (\<forall>j. Limpiador j \<notin> set (contents (grid m) q)))"

text \<open>
  \<^verbatim>\<open>random.choice(seq)\<close> returns \<^verbatim>\<open>seq[randbelow(len(seq))]\<close>, and the library's
  \<^verbatim>\<open>randbelow(n)\<close> is uniform on \<^verbatim>\<open>range(n)\<close>. So the probability that \<^verbatim>\<open>choice\<close> returns
  \<open>q\<close> is the share of the indices of the sequence that hold \<open>q\<close>.
\<close>

definition choice_probability :: "'a list \<Rightarrow> 'a \<Rightarrow> rat" where
  "choice_probability seq q = of_nat (count_list seq q) / of_nat (length seq)"

subsection \<open>The spec's two-phase round\<close>

text \<open>
  Written from the spec's words (sections 4.3, 4.4 and 9), to compare the scheduler's
  round with: in the decide phase every agent's action is computed from one snapshot,
  the state before the round; in the apply phase the actions are carried out in the
  order of the agents. The generator's numbers go to the movers in the order of the
  agents. (The spec leaves open what to do when two agents choose the same cell; here
  both go there.)
\<close>

datatype action = Clean | Move coord | Stay

fun two_phase_decide :: "HabitacionModel \<Rightarrow> nat list \<Rightarrow> nat \<Rightarrow> (nat \<times> action) list" where
  "two_phase_decide snapshot [] k = []"
| "two_phase_decide snapshot (i # rest) k =
     (if list_ex (es_celda_sucia snapshot) (contents (grid snapshot) (pos snapshot i))
      then (i, Clean) # two_phase_decide snapshot rest k
      else let valid = valid_moves snapshot i
           in if valid \<noteq> []
              then (i, Move (valid ! (random snapshot k mod length valid)))
                     # two_phase_decide snapshot rest (k + 1)
              else (i, Stay) # two_phase_decide snapshot rest k)"

definition two_phase_apply :: "nat \<times> action \<Rightarrow> HabitacionModel \<Rightarrow> error + HabitacionModel" where
  "two_phase_apply ia m =
     (let i = fst ia
      in case snd ia of
           Clean \<Rightarrow> Inr (fold limpiar_si_sucia (contents (grid m) (pos m i)) m)
         | Stay \<Rightarrow> Inr m
         | Move q \<Rightarrow>
             (case move_agent (grid m) (Limpiador i) (pos m i) q of
                Inl e \<Rightarrow> Inl e
              | Inr g \<Rightarrow>
                  Inr (m\<lparr>drawn := drawn m + 1, grid := g, pos := (pos m)(i := q),
                         movimientos := (movimientos m)(i := movimientos m i + 1)\<rparr>)))"

definition two_phase_round :: "nat list \<Rightarrow> HabitacionModel \<Rightarrow> error + HabitacionModel" where
  "two_phase_round order m = for_each two_phase_apply (two_phase_decide m order (drawn m)) m"

subsection \<open>Well-formed states\<close>

text \<open>
  \<open>placed m i\<close>: cleaner \<open>i\<close> is on the grid where its attribute \<^verbatim>\<open>pos\<close> says, and
  that coordinate is inside the grid. \<open>well_placed m\<close>: so is every scheduled cleaner.
  The library keeps this for every agent it has placed; the model has to say it.
\<close>

definition placed :: "HabitacionModel \<Rightarrow> nat \<Rightarrow> bool" where
  "placed m i =
     (\<not> out_of_bounds (grid m) (pos m i) \<and> Limpiador i \<in> set (contents (grid m) (pos m i)))"

definition well_placed :: "HabitacionModel \<Rightarrow> bool" where
  "well_placed m = list_all (placed m) (schedule_agents m)"

text \<open>
  \<open>evolves m m'\<close>: what relates a state to every later state of the same simulation.
  The parameters, the recorded dirty positions, the scheduled agents, the grid's extent
  and the generator's sequence are the same; no cell has become dirty; the cells
  (the occupants that are not cleaners) stand where they stood; no movement counter has
  gone down; a cleaner that was placed is placed.
\<close>

definition evolves :: "HabitacionModel \<Rightarrow> HabitacionModel \<Rightarrow> bool" where
  "evolves m m' =
     (celdas_sucias m' = celdas_sucias m \<and>
      dirty_positions m' = dirty_positions m \<and>
      schedule_agents m' = schedule_agents m \<and>
      width (grid m') = width (grid m) \<and>
      height (grid m') = height (grid m) \<and>
      random m' = random m \<and>
      (\<forall>c. sucia m' c \<longrightarrow> sucia m c) \<and>
      (\<forall>p. filter (\<lambda>a. \<not> es_limpiador a) (contents (grid m') p) =
           filter (\<lambda>a. \<not> es_limpiador a) (contents (grid m) p)) \<and>
      (\<forall>j. movimientos m j \<le> movimientos m' j) \<and>
      (\<forall>j. placed m j \<longrightarrow> placed m' j))"

subsection \<open>Observing a result\<close>

text \<open>\<open>returns r P\<close>: the call did not raise and its result satisfies \<open>P\<close>.\<close>

definition returns :: "error + 'a \<Rightarrow> ('a \<Rightarrow> bool) \<Rightarrow> bool" where
  "returns r P = (case r of Inl _ \<Rightarrow> False | Inr v \<Rightarrow> P v)"

text \<open>A random generator whose raw numbers are all 0: every \<^verbatim>\<open>choice\<close> takes the first
  element of its sequence.\<close>

definition rnd_zero :: "nat \<Rightarrow> nat" where
  "rnd_zero k = 0"

section \<open>Loops\<close>

lemma for_each_append:
  "for_each f (xs @ ys) s =
     (case for_each f xs s of Inl e \<Rightarrow> Inl e | Inr s' \<Rightarrow> for_each f ys s')"
  by (induction xs arbitrary: s) (auto split: sum.splits)

text \<open>Two nested loops are one loop over the pairs, first index outermost.\<close>

lemma for_each_product:
  "for_each (\<lambda>i. for_each (\<lambda>j. f i j) ys) xs s =
     for_each (\<lambda>p. f (fst p) (snd p)) (List.product xs ys) s"
proof (induction xs arbitrary: s)
  case Nil
  then show ?case by simp
next
  case (Cons x xs)
  have inner: "for_each (\<lambda>p. f (fst p) (snd p)) (map (Pair x) ys) s = for_each (f x) ys s" for s
    by (induction ys arbitrary: s) (auto split: sum.splits)
  show ?case
    by (simp add: for_each_append inner Cons.IH split: sum.splits)
qed

text \<open>What every iteration preserves holds after a loop that did not raise.\<close>

lemma for_each_invariant:
  assumes "for_each f xs s = Inr s'" and "P s"
    and "\<And>x a b. x \<in> set xs \<Longrightarrow> P a \<Longrightarrow> f x a = Inr b \<Longrightarrow> P b"
  shows "P s'"
  using assms
proof (induction xs arbitrary: s)
  case Nil
  then show ?case by simp
next
  case (Cons x xs)
  from Cons.prems(1) obtain a where a: "f x s = Inr a" and rest: "for_each f xs a = Inr s'"
    by (auto split: sum.splits)
  have "P a" using Cons.prems(2,3) a by auto
  show ?case
    by (rule Cons.IH [OF rest \<open>P a\<close>]) (use Cons.prems(3) in auto)
qed

text \<open>A loop whose body never raises under an invariant does not raise.\<close>

lemma for_each_total:
  assumes "P s"
    and "\<And>x a. x \<in> set xs \<Longrightarrow> P a \<Longrightarrow> \<exists>b. f x a = Inr b \<and> P b"
  shows "\<exists>s'. for_each f xs s = Inr s' \<and> P s'"
  using assms
proof (induction xs arbitrary: s)
  case Nil
  then show ?case by simp
next
  case (Cons x xs)
  from Cons.prems obtain a where a: "f x s = Inr a" "P a" by fastforce
  from Cons.IH [OF a(2)] Cons.prems(2) obtain s' where "for_each f xs a = Inr s'" "P s'"
    by auto
  then show ?case using a by simp
qed

section \<open>Construction\<close>

lemma celda_body_Inr:
  assumes "\<not> out_of_bounds (grid m) p"
  shows "celda_body ps (fst p) (snd p) (u, m) =
     Inr (u + 1,
       m\<lparr>sucia := (sucia m)(u := u \<in> set ps),
         dirty_positions := (if u \<in> set ps then List.insert p (dirty_positions m) else dirty_positions m),
         grid := (grid m)\<lparr>contents := (contents (grid m))(p := contents (grid m) p @ [Celda u])\<rparr>\<rparr>)"
  using assms by (simp add: celda_body_def place_agent_def Let_def)

lemma celdas_loop:
  assumes "distinct L" and "\<forall>p\<in>set L. \<not> out_of_bounds (grid m) p"
    and "set L \<inter> set (dirty_positions m) = {}"
  shows "\<exists>m'. for_each (\<lambda>p. celda_body ps (fst p) (snd p)) L (u, m) = Inr (u + length L, m') \<and>
     (\<exists>g s d. m' = m\<lparr>grid := g, sucia := s, dirty_positions := d\<rparr>) \<and>
     width (grid m') = width (grid m) \<and> height (grid m') = height (grid m) \<and>
     (\<forall>k<length L. contents (grid m') (L ! k) = contents (grid m) (L ! k) @ [Celda (u + k)]) \<and>
     (\<forall>p. p \<notin> set L \<longrightarrow> contents (grid m') p = contents (grid m) p) \<and>
     (\<forall>v. sucia m' v = (if u \<le> v \<and> v < u + length L then v \<in> set ps else sucia m v)) \<and>
     dirty_positions m' =
       rev (map (\<lambda>k. L ! k) (filter (\<lambda>k. u + k \<in> set ps) [0..<length L])) @ dirty_positions m"
  using assms
proof (induction L rule: rev_induct)
  case Nil
  have "m = m\<lparr>grid := grid m, sucia := sucia m, dirty_positions := dirty_positions m\<rparr>"
    by simp
  then have "\<exists>g s d. m = m\<lparr>grid := g, sucia := s, dirty_positions := d\<rparr>"
    by blast
  then show ?case by auto
next
  case (snoc p L)
  let ?body = "\<lambda>p. celda_body ps (fst p) (snd p)"
  from snoc.prems have dL: "distinct L" and pL: "p \<notin> set L"
    and bL: "\<forall>q\<in>set L. \<not> out_of_bounds (grid m) q" and bp: "\<not> out_of_bounds (grid m) p"
    and iL: "set L \<inter> set (dirty_positions m) = {}" and ip: "p \<notin> set (dirty_positions m)"
    by auto
  from snoc.IH [OF dL bL iL] obtain m1 where
    run: "for_each ?body L (u, m) = Inr (u + length L, m1)"
    and "\<exists>g s d. m1 = m\<lparr>grid := g, sucia := s, dirty_positions := d\<rparr>"
    and w: "width (grid m1) = width (grid m)" and h: "height (grid m1) = height (grid m)"
    and inL: "\<forall>k<length L. contents (grid m1) (L ! k) = contents (grid m) (L ! k) @ [Celda (u + k)]"
    and outL: "\<forall>q. q \<notin> set L \<longrightarrow> contents (grid m1) q = contents (grid m) q"
    and su: "\<forall>v. sucia m1 v = (if u \<le> v \<and> v < u + length L then v \<in> set ps else sucia m v)"
    and dp: "dirty_positions m1 =
       rev (map (\<lambda>k. L ! k) (filter (\<lambda>k. u + k \<in> set ps) [0..<length L])) @ dirty_positions m"
    by blast
  then obtain g1 s1 d1 where frame: "m1 = m\<lparr>grid := g1, sucia := s1, dirty_positions := d1\<rparr>"
    by blast
  have bp1: "\<not> out_of_bounds (grid m1) p"
    using bp w h by (simp add: out_of_bounds_def)
  define n where "n = u + length L"
  define m' where "m' = m1\<lparr>sucia := (sucia m1)(n := n \<in> set ps),
         dirty_positions := (if n \<in> set ps then List.insert p (dirty_positions m1) else dirty_positions m1),
         grid := (grid m1)\<lparr>contents := (contents (grid m1))(p := contents (grid m1) p @ [Celda n])\<rparr>\<rparr>"
  have step: "?body p (n, m1) = Inr (n + 1, m')"
    unfolding m'_def by (rule celda_body_Inr [OF bp1])
  have run': "for_each ?body (L @ [p]) (u, m) = Inr (u + length (L @ [p]), m')"
    by (simp add: for_each_append run step [unfolded n_def] n_def)
  have pfresh: "p \<notin> set (dirty_positions m1)"
  proof -
    have "set (map (\<lambda>k. L ! k) (filter (\<lambda>k. u + k \<in> set ps) [0..<length L])) \<subseteq> set L"
      by auto
    then show ?thesis using dp pL ip by auto
  qed
  have "m' = m\<lparr>grid := grid m', sucia := sucia m', dirty_positions := dirty_positions m'\<rparr>"
    by (simp add: m'_def frame)
  then have c1: "\<exists>g s d. m' = m\<lparr>grid := g, sucia := s, dirty_positions := d\<rparr>"
    by blast
  have c2: "width (grid m') = width (grid m)" "height (grid m') = height (grid m)"
    by (simp_all add: m'_def w h)
  have c3: "\<forall>k<length (L @ [p]). contents (grid m') ((L @ [p]) ! k) = contents (grid m) ((L @ [p]) ! k) @ [Celda (u + k)]"
  proof (intro allI impI)
    fix k assume k: "k < length (L @ [p])"
    show "contents (grid m') ((L @ [p]) ! k) = contents (grid m) ((L @ [p]) ! k) @ [Celda (u + k)]"
    proof (cases "k < length L")
      case True
      then have "L ! k \<noteq> p" using pL by (metis nth_mem)
      then show ?thesis using True inL by (simp add: m'_def nth_append)
    next
      case False
      then have "k = length L" using k by simp
      moreover have "contents (grid m1) p = contents (grid m) p" using outL pL by blast
      ultimately show ?thesis by (simp add: m'_def n_def)
    qed
  qed
  have c4: "\<forall>q. q \<notin> set (L @ [p]) \<longrightarrow> contents (grid m') q = contents (grid m) q"
    using outL by (auto simp add: m'_def)
  have c5: "\<forall>v. sucia m' v = (if u \<le> v \<and> v < u + length (L @ [p]) then v \<in> set ps else sucia m v)"
    using su by (auto simp add: m'_def n_def)
  have c6: "dirty_positions m' =
       rev (map (\<lambda>k. (L @ [p]) ! k) (filter (\<lambda>k. u + k \<in> set ps) [0..<length (L @ [p])])) @ dirty_positions m"
  proof -
    have eq: "map (\<lambda>k. (L @ [p]) ! k) (filter (\<lambda>k. u + k \<in> set ps) [0..<length L])
        = map (\<lambda>k. L ! k) (filter (\<lambda>k. u + k \<in> set ps) [0..<length L])"
      by (rule map_cong) (auto simp: nth_append)
    show ?thesis
      using pfresh by (simp add: m'_def n_def dp eq List.insert_def)
  qed
  show ?case
    using run' c1 c2 c3 c4 c5 c6 by blast
qed

lemma limpiador_body_Inr:
  assumes "\<not> out_of_bounds (grid m) (1, 1)"
  shows "limpiador_body i (u, m) =
     Inr (u + 1,
       m\<lparr>movimientos := (movimientos m)(i := 0),
         grid := (grid m)\<lparr>contents := (contents (grid m))((1, 1) := contents (grid m) (1, 1) @ [Limpiador i])\<rparr>,
         pos := (pos m)(i := (1, 1)),
         schedule_agents := schedule_agents m @ [i]\<rparr>)"
  using assms by (simp add: limpiador_body_def place_agent_def Let_def out_of_bounds_def)

lemma limpiador_body_Inl:
  assumes "out_of_bounds (grid m) (1, 1)"
  shows "limpiador_body i (u, m) = Inl IndexError"
  using assms by (simp add: limpiador_body_def place_agent_def Let_def out_of_bounds_def)

lemma limpiadores_loop_fail:
  assumes "out_of_bounds (grid m) (1, 1)" and "0 < k"
  shows "for_each limpiador_body [0..<k] (u, m) = Inl IndexError"
  using assms by (simp add: upt_conv_Cons limpiador_body_Inl)

lemma limpiadores_loop:
  assumes "\<not> out_of_bounds (grid m) (1, 1)"
  shows "\<exists>m'. for_each limpiador_body [0..<k] (u, m) = Inr (u + k, m') \<and>
     (\<exists>g p mv. m' = m\<lparr>grid := g, pos := p, movimientos := mv,
                        schedule_agents := schedule_agents m @ [0..<k]\<rparr>) \<and>
     width (grid m') = width (grid m) \<and> height (grid m') = height (grid m) \<and>
     contents (grid m') =
       (contents (grid m))((1, 1) := contents (grid m) (1, 1) @ map Limpiador [0..<k]) \<and>
     (\<forall>i<k. pos m' i = (1, 1) \<and> movimientos m' i = 0)"
proof (induction k)
  case 0
  have "m = m\<lparr>grid := grid m, pos := pos m, movimientos := movimientos m,
               schedule_agents := schedule_agents m @ [0..<0]\<rparr>"
    by simp
  then have "\<exists>g p mv. m = m\<lparr>grid := g, pos := p, movimientos := mv,
                        schedule_agents := schedule_agents m @ [0..<0]\<rparr>"
    by blast
  then show ?case by simp
next
  case (Suc k)
  then obtain m1 g1 p1 mv1 where
    run: "for_each limpiador_body [0..<k] (u, m) = Inr (u + k, m1)"
    and frame: "m1 = m\<lparr>grid := g1, pos := p1, movimientos := mv1,
                        schedule_agents := schedule_agents m @ [0..<k]\<rparr>"
    and w: "width (grid m1) = width (grid m)" and h: "height (grid m1) = height (grid m)"
    and c: "contents (grid m1) =
       (contents (grid m))((1, 1) := contents (grid m) (1, 1) @ map Limpiador [0..<k])"
    and pm: "\<forall>i<k. pos m1 i = (1, 1) \<and> movimientos m1 i = 0"
    by blast
  have b1: "\<not> out_of_bounds (grid m1) (1, 1)"
    using assms w h by (simp add: out_of_bounds_def)
  define m' where "m' = m1\<lparr>movimientos := (movimientos m1)(k := 0),
         grid := (grid m1)\<lparr>contents := (contents (grid m1))((1, 1) := contents (grid m1) (1, 1) @ [Limpiador k])\<rparr>,
         pos := (pos m1)(k := (1, 1)),
         schedule_agents := schedule_agents m1 @ [k]\<rparr>"
  have step: "limpiador_body k (u + k, m1) = Inr (u + k + 1, m')"
    unfolding m'_def by (rule limpiador_body_Inr [OF b1])
  have run': "for_each limpiador_body [0..<Suc k] (u, m) = Inr (u + Suc k, m')"
    by (simp add: for_each_append run step)
  have "m' = m\<lparr>grid := grid m', pos := pos m', movimientos := movimientos m',
               schedule_agents := schedule_agents m @ [0..<Suc k]\<rparr>"
    by (simp add: m'_def frame)
  then have c1: "\<exists>g p mv. m' = m\<lparr>grid := g, pos := p, movimientos := mv,
                        schedule_agents := schedule_agents m @ [0..<Suc k]\<rparr>"
    by blast
  have c2: "width (grid m') = width (grid m)" "height (grid m') = height (grid m)"
    by (simp_all add: m'_def w h)
  have c3: "contents (grid m') =
       (contents (grid m))((1, 1) := contents (grid m) (1, 1) @ map Limpiador [0..<Suc k])"
    by (simp add: m'_def c)
  have c4: "\<forall>i<Suc k. pos m' i = (1, 1) \<and> movimientos m' i = 0"
    using pm by (auto simp: m'_def less_Suc_eq)
  show ?case using run' c1 c2 c3 c4 by blast
qed

lemma create_ValueError:
  assumes "\<not> (0 \<le> R \<and> 0 \<le> C \<and> 0 \<le> D \<and> D \<le> max 0 (R * C))"
  shows "create R C K D ps rnd = Inl ValueError"
  using assms by (auto simp add: create_def MultiGrid_new_def random_sample_def Let_def)

lemma product_upt_nth:
  assumes "k < a * b"
  shows "List.product [0..<a] [0..<b] ! k = (k div b, k mod b)"
proof -
  have b: "0 < b" using assms by (cases b) auto
  have "k div b < a" using assms b by (simp add: less_mult_imp_div_less)
  moreover have "k mod b < b" using b by simp
  ultimately show ?thesis using assms by (simp add: List.product_nth)
qed

lemma create_loops:
  assumes "0 \<le> D" and "D \<le> max 0 (R * C)" and "0 \<le> R" and "0 \<le> C"
  shows "create R C K D ps rnd =
     (case for_each (\<lambda>p. celda_body ps (fst p) (snd p)) (List.product [0..<nat R] [0..<nat C])
             (0, \<lparr>M = R, N = C, num_agentes = K, celdas_sucias = D,
                  grid = MultiGrid_init R C, running = True, dirty_positions = [],
                  sucia = (\<lambda>_. False), pos = (\<lambda>_. (0, 0)), movimientos = (\<lambda>_. 0),
                  schedule_agents = [], schedule_steps = 0, datacollector = [],
                  random = rnd, drawn = 0\<rparr>) of
        Inl e \<Rightarrow> Inl e
      | Inr st \<Rightarrow> (case for_each limpiador_body [0..<nat K] st of
                    Inl e \<Rightarrow> Inl e
                  | Inr st' \<Rightarrow> Inr (snd st')))"
  using assms
  by (simp add: create_def MultiGrid_new_def random_sample_def Let_def for_each_product)

lemma create_celdas:
  fixes R C K D :: int and ps :: "nat list" and rnd :: "nat \<Rightarrow> nat"
  defines "m0 \<equiv> \<lparr>M = R, N = C, num_agentes = K, celdas_sucias = D,
                  grid = MultiGrid_init R C, running = True, dirty_positions = [],
                  sucia = (\<lambda>_. False), pos = (\<lambda>_. (0, 0)), movimientos = (\<lambda>_. 0),
                  schedule_agents = [], schedule_steps = 0, datacollector = [],
                  random = rnd, drawn = 0\<rparr>"
  shows "\<exists>m. for_each (\<lambda>p. celda_body ps (fst p) (snd p)) (List.product [0..<nat R] [0..<nat C]) (0, m0)
            = Inr (nat R * nat C, m) \<and>
     (\<exists>g s d. m = m0\<lparr>grid := g, sucia := s, dirty_positions := d\<rparr>) \<and>
     width (grid m) = nat R \<and> height (grid m) = nat C \<and>
     (\<forall>x y. contents (grid m) (x, y) = (if x < nat R \<and> y < nat C then [Celda (x * nat C + y)] else [])) \<and>
     (\<forall>v. sucia m v = (v < nat R * nat C \<and> v \<in> set ps)) \<and>
     dirty_positions m =
       rev (map (\<lambda>k. (k div nat C, k mod nat C)) (filter (\<lambda>k. k \<in> set ps) [0..<nat R * nat C]))"
proof -
  let ?L = "List.product [0..<nat R] [0..<nat C]"
  have len: "length ?L = nat R * nat C" by simp
  have d: "distinct ?L" by (simp add: distinct_product)
  have b: "\<forall>p\<in>set ?L. \<not> out_of_bounds (grid m0) p"
    by (auto simp: m0_def MultiGrid_init_def out_of_bounds_def)
  have i: "set ?L \<inter> set (dirty_positions m0) = {}" by (simp add: m0_def)
  from celdas_loop [OF d b i, of ps 0] obtain m where
    run: "for_each (\<lambda>p. celda_body ps (fst p) (snd p)) ?L (0, m0) = Inr (0 + length ?L, m)"
    and frame: "\<exists>g s d. m = m0\<lparr>grid := g, sucia := s, dirty_positions := d\<rparr>"
    and w: "width (grid m) = width (grid m0)" and h: "height (grid m) = height (grid m0)"
    and inL: "\<forall>k<length ?L. contents (grid m) (?L ! k) = contents (grid m0) (?L ! k) @ [Celda (0 + k)]"
    and outL: "\<forall>q. q \<notin> set ?L \<longrightarrow> contents (grid m) q = contents (grid m0) q"
    and su: "\<forall>v. sucia m v = (if 0 \<le> v \<and> v < 0 + length ?L then v \<in> set ps else sucia m0 v)"
    and dp: "dirty_positions m =
       rev (map (\<lambda>k. ?L ! k) (filter (\<lambda>k. 0 + k \<in> set ps) [0..<length ?L])) @ dirty_positions m0"
    by blast
  have c1: "for_each (\<lambda>p. celda_body ps (fst p) (snd p)) ?L (0, m0) = Inr (nat R * nat C, m)"
    using run by simp
  have c2: "width (grid m) = nat R" "height (grid m) = nat C"
    using w h by (simp_all add: m0_def MultiGrid_init_def)
  have c3: "\<forall>x y. contents (grid m) (x, y) = (if x < nat R \<and> y < nat C then [Celda (x * nat C + y)] else [])"
  proof (intro allI)
    fix x y
    show "contents (grid m) (x, y) = (if x < nat R \<and> y < nat C then [Celda (x * nat C + y)] else [])"
    proof (cases "x < nat R \<and> y < nat C")
      case True
      define k where "k = x * nat C + y"
      have "k < nat R * nat C"
      proof -
        have "k < x * nat C + nat C" using True by (simp add: k_def)
        also have "\<dots> = Suc x * nat C" by simp
        also have "\<dots> \<le> nat R * nat C" using True by (intro mult_le_mono1) simp
        finally show ?thesis .
      qed
      moreover have "nat C \<noteq> 0" using True by auto
      then have "k div nat C = x" "k mod nat C = y"
        using True by (simp_all add: k_def)
      ultimately have "?L ! k = (x, y)" by (simp add: product_upt_nth)
      moreover have "contents (grid m) (?L ! k) = contents (grid m0) (?L ! k) @ [Celda (0 + k)]"
        using inL \<open>k < nat R * nat C\<close> len by simp
      ultimately show ?thesis using True by (simp add: k_def m0_def MultiGrid_init_def)
    next
      case False
      then have "(x, y) \<notin> set ?L" by auto
      then have "contents (grid m) (x, y) = contents (grid m0) (x, y)" using outL by blast
      then show ?thesis using False by (simp add: m0_def MultiGrid_init_def)
    qed
  qed
  have c4: "\<forall>v. sucia m v = (v < nat R * nat C \<and> v \<in> set ps)"
    using su by (simp add: m0_def)
  have c5: "dirty_positions m =
       rev (map (\<lambda>k. (k div nat C, k mod nat C)) (filter (\<lambda>k. k \<in> set ps) [0..<nat R * nat C]))"
  proof -
    have "map (\<lambda>k. ?L ! k) (filter (\<lambda>k. k \<in> set ps) [0..<nat R * nat C])
        = map (\<lambda>k. (k div nat C, k mod nat C)) (filter (\<lambda>k. k \<in> set ps) [0..<nat R * nat C])"
      by (rule map_cong) (auto simp: product_upt_nth)
    then show ?thesis using dp by (simp add: m0_def)
  qed
  show ?thesis using c1 frame c2 c3 c4 c5 by blast
qed

lemma create_IndexError:
  assumes "0 \<le> D" and "D \<le> max 0 (R * C)" and "1 \<le> K" and "R < 2 \<or> C < 2"
    and "0 \<le> R" and "0 \<le> C"
  shows "create R C K D ps rnd = Inl IndexError"
proof -
  from create_celdas [of ps R C K D rnd] obtain m where
    run: "for_each (\<lambda>p. celda_body ps (fst p) (snd p)) (List.product [0..<nat R] [0..<nat C])
             (0, \<lparr>M = R, N = C, num_agentes = K, celdas_sucias = D,
                  grid = MultiGrid_init R C, running = True, dirty_positions = [],
                  sucia = (\<lambda>_. False), pos = (\<lambda>_. (0, 0)), movimientos = (\<lambda>_. 0),
                  schedule_agents = [], schedule_steps = 0, datacollector = [],
                  random = rnd, drawn = 0\<rparr>) = Inr (nat R * nat C, m)"
    and w: "width (grid m) = nat R" and h: "height (grid m) = nat C"
    by blast
  have "out_of_bounds (grid m) (1, 1)"
    using assms(4) w h by (auto simp: out_of_bounds_def)
  moreover have "0 < nat K" using assms(3) by simp
  ultimately have "for_each limpiador_body [0..<nat K] (nat R * nat C, m) = Inl IndexError"
    by (rule limpiadores_loop_fail)
  then show ?thesis
    by (simp add: create_loops [OF assms(1,2,5,6)] run)
qed

lemma create_Inr:
  assumes "0 \<le> D" and "D \<le> max 0 (R * C)" and "K \<le> 0 \<or> (2 \<le> R \<and> 2 \<le> C)"
    and "0 \<le> R" and "0 \<le> C"
  shows "\<exists>m. create R C K D ps rnd = Inr m \<and>
     celdas_sucias m = D \<and> running m \<and> schedule_steps m = 0 \<and> datacollector m = [] \<and>
     random m = rnd \<and> drawn m = 0 \<and> schedule_agents m = [0..<nat K] \<and>
     width (grid m) = nat R \<and> height (grid m) = nat C \<and>
     (\<forall>i<nat K. pos m i = (1, 1) \<and> movimientos m i = 0) \<and>
     (\<forall>x y. contents (grid m) (x, y) =
        (if x < nat R \<and> y < nat C
         then Celda (x * nat C + y) # (if (x, y) = (1, 1) then map Limpiador [0..<nat K] else [])
         else [])) \<and>
     (\<forall>v. sucia m v = (v < nat R * nat C \<and> v \<in> set ps)) \<and>
     dirty_positions m =
       rev (map (\<lambda>k. (k div nat C, k mod nat C)) (filter (\<lambda>k. k \<in> set ps) [0..<nat R * nat C]))"
proof -
  define m0 where "m0 = \<lparr>M = R, N = C, num_agentes = K, celdas_sucias = D,
                  grid = MultiGrid_init R C, running = True, dirty_positions = [],
                  sucia = (\<lambda>_. False), pos = (\<lambda>_. (0, 0)), movimientos = (\<lambda>_. 0),
                  schedule_agents = [], schedule_steps = 0, datacollector = [],
                  random = rnd, drawn = 0\<rparr>"
  from create_celdas [of ps R C K D rnd] obtain m1 g1 s1 d1 where
    run1: "for_each (\<lambda>p. celda_body ps (fst p) (snd p)) (List.product [0..<nat R] [0..<nat C]) (0, m0)
             = Inr (nat R * nat C, m1)"
    and frame1: "m1 = m0\<lparr>grid := g1, sucia := s1, dirty_positions := d1\<rparr>"
    and w1: "width (grid m1) = nat R" and h1: "height (grid m1) = nat C"
    and c1: "\<forall>x y. contents (grid m1) (x, y) = (if x < nat R \<and> y < nat C then [Celda (x * nat C + y)] else [])"
    and su1: "\<forall>v. sucia m1 v = (v < nat R * nat C \<and> v \<in> set ps)"
    and dp1: "dirty_positions m1 =
       rev (map (\<lambda>k. (k div nat C, k mod nat C)) (filter (\<lambda>k. k \<in> set ps) [0..<nat R * nat C]))"
    unfolding m0_def by blast
  have cr: "create R C K D ps rnd =
     (case for_each limpiador_body [0..<nat K] (nat R * nat C, m1) of
        Inl e \<Rightarrow> Inl e | Inr st' \<Rightarrow> Inr (snd st'))"
    using run1 by (simp add: create_loops [OF assms(1,2,4,5)] m0_def)
  show ?thesis
  proof (cases "K \<le> 0")
    case True
    then have "nat K = 0" by simp
    then have "create R C K D ps rnd = Inr m1" using cr by simp
    moreover have "celdas_sucias m1 = D" "running m1" "schedule_steps m1 = 0" "datacollector m1 = []"
      "random m1 = rnd" "drawn m1 = 0" "schedule_agents m1 = [0..<nat K]"
      using \<open>nat K = 0\<close> by (simp_all add: frame1 m0_def)
    moreover have "\<forall>i<nat K. pos m1 i = (1, 1) \<and> movimientos m1 i = 0"
      using \<open>nat K = 0\<close> by simp
    moreover have "\<forall>x y. contents (grid m1) (x, y) =
        (if x < nat R \<and> y < nat C
         then Celda (x * nat C + y) # (if (x, y) = (1, 1) then map Limpiador [0..<nat K] else [])
         else [])"
      using c1 \<open>nat K = 0\<close> by simp
    ultimately show ?thesis using w1 h1 su1 dp1 by blast
  next
    case False
    then have big: "2 \<le> R" "2 \<le> C" using assms(3) by auto
    have b: "\<not> out_of_bounds (grid m1) (1, 1)"
      using big w1 h1 by (auto simp add: out_of_bounds_def)
    from limpiadores_loop [OF b, of "nat K" "nat R * nat C"] obtain m g p mv where
      run2: "for_each limpiador_body [0..<nat K] (nat R * nat C, m1) = Inr (nat R * nat C + nat K, m)"
      and frame2: "m = m1\<lparr>grid := g, pos := p, movimientos := mv,
                        schedule_agents := schedule_agents m1 @ [0..<nat K]\<rparr>"
      and w: "width (grid m) = width (grid m1)" and h: "height (grid m) = height (grid m1)"
      and c: "contents (grid m) =
         (contents (grid m1))((1, 1) := contents (grid m1) (1, 1) @ map Limpiador [0..<nat K])"
      and pm: "\<forall>i<nat K. pos m i = (1, 1) \<and> movimientos m i = 0"
      by blast
    have "create R C K D ps rnd = Inr m" using cr run2 by simp
    moreover have "celdas_sucias m = D" "running m" "schedule_steps m = 0" "datacollector m = []"
      "random m = rnd" "drawn m = 0" "schedule_agents m = [0..<nat K]"
      by (simp_all add: frame2 frame1 m0_def)
    moreover have "width (grid m) = nat R" "height (grid m) = nat C"
      using w h w1 h1 by simp_all
    moreover have "\<forall>x y. contents (grid m) (x, y) =
        (if x < nat R \<and> y < nat C
         then Celda (x * nat C + y) # (if (x, y) = (1, 1) then map Limpiador [0..<nat K] else [])
         else [])"
      using c1 big by (auto simp: c)
    moreover have "\<forall>v. sucia m v = (v < nat R * nat C \<and> v \<in> set ps)"
      using su1 by (simp add: frame2)
    moreover have "dirty_positions m =
       rev (map (\<lambda>k. (k div nat C, k mod nat C)) (filter (\<lambda>k. k \<in> set ps) [0..<nat R * nat C]))"
      using dp1 by (simp add: frame2)
    ultimately show ?thesis using pm by blast
  qed
qed

lemma returns_Inr [simp]: "returns (Inr v) P = P v"
  by (simp add: returns_def)

lemma returns_Inl [simp]: "returns (Inl e) P = False"
  by (simp add: returns_def)

lemma returnsE:
  assumes "returns r P"
  obtains v where "r = Inr v" and "P v"
  using assms by (cases r) auto

section \<open>Claims about construction\<close>

text \<open>
  C3, as the code has it. The claim says that construction fails with InvalidParameter
  exactly when \<open>dirty_count > rows \<times> columns\<close> or a dimension is not positive, and
  succeeds for positive dimensions and \<open>0 \<le> dirty_count \<le> rows \<times> columns\<close>. For all
  parameters, what the code does is this.
  \<^item> Construction raises \<^verbatim>\<open>ValueError\<close> (the InvalidParameter of the spec) exactly when a
    dimension is negative (the grid's constructor), or \<open>dirty_count < 0\<close> or
    \<open>dirty_count > rows \<times> columns\<close> (\<^verbatim>\<open>random.sample\<close>). A dimension of 0 alone is not
    refused.
  \<^item> It raises \<^verbatim>\<open>IndexError\<close> exactly when those checks pass, there is at least one
    agent and a dimension is below 2: the agents are placed at \<open>(1, 1)\<close>.
  \<^item> It returns a model exactly in the remaining case: no dimension negative, the dirty
    count in range, and no agent or both dimensions at least 2.
\<close>

theorem create_outcome:
  "(create rows cols agentes sucias ps rnd = Inl ValueError
      \<longleftrightarrow> rows < 0 \<or> cols < 0 \<or> sucias < 0 \<or> rows * cols < sucias) \<and>
   (create rows cols agentes sucias ps rnd = Inl IndexError
      \<longleftrightarrow> 0 \<le> rows \<and> 0 \<le> cols \<and> 0 \<le> sucias \<and> sucias \<le> rows * cols \<and>
          1 \<le> agentes \<and> (rows < 2 \<or> cols < 2)) \<and>
   ((\<exists>m. create rows cols agentes sucias ps rnd = Inr m)
      \<longleftrightarrow> 0 \<le> rows \<and> 0 \<le> cols \<and> 0 \<le> sucias \<and> sucias \<le> rows * cols \<and>
          (agentes \<le> 0 \<or> (2 \<le> rows \<and> 2 \<le> cols)))"
proof -
  have pos: "max 0 (rows * cols) = rows * cols" if "0 \<le> rows" "0 \<le> cols"
    using that by (simp add: max_def mult_nonneg_nonneg)
  consider (bad) "rows < 0 \<or> cols < 0 \<or> sucias < 0 \<or> rows * cols < sucias"
    | (edge) "0 \<le> rows" "0 \<le> cols" "0 \<le> sucias" "sucias \<le> rows * cols"
        "1 \<le> agentes" "rows < 2 \<or> cols < 2"
    | (good) "0 \<le> rows" "0 \<le> cols" "0 \<le> sucias" "sucias \<le> rows * cols"
        "agentes \<le> 0 \<or> (2 \<le> rows \<and> 2 \<le> cols)"
    by linarith
  then show ?thesis
  proof cases
    case bad
    have "\<not> (0 \<le> rows \<and> 0 \<le> cols \<and> 0 \<le> sucias \<and> sucias \<le> max 0 (rows * cols))"
      using bad pos by auto
    then have "create rows cols agentes sucias ps rnd = Inl ValueError"
      by (rule create_ValueError)
    then show ?thesis using bad by auto
  next
    case edge
    have "sucias \<le> max 0 (rows * cols)" using edge(4) pos [OF edge(1,2)] by simp
    then have "create rows cols agentes sucias ps rnd = Inl IndexError"
      using edge by (intro create_IndexError)
    then show ?thesis using edge by auto
  next
    case good
    have "sucias \<le> max 0 (rows * cols)" using good(4) pos [OF good(1,2)] by simp
    then obtain m where "create rows cols agentes sucias ps rnd = Inr m"
      using create_Inr [where D = sucias and R = rows and C = cols and K = agentes
          and ps = ps and rnd = rnd] good
      by blast
    then show ?thesis using good by auto
  qed
qed

text \<open>The theorem at three inputs: a 2 by 2 room with one agent and one dirty cell is
  built; a room with a negative dimension and one with too many dirty cells are refused
  with \<^verbatim>\<open>ValueError\<close>.\<close>

theorem create_outcome_witness:
  "\<not> isl (create 2 2 1 1 [3] rnd_zero) \<and>
   create (- 2) (- 3) 0 6 [] rnd_zero = Inl ValueError \<and>
   create 2 2 1 5 [] rnd_zero = Inl ValueError"
  using create_outcome [of 2 2 1 1 "[3]" rnd_zero]
    create_outcome [of "- 2" "- 3" 0 6 "[]" rnd_zero]
    create_outcome [of 2 2 1 5 "[]" rnd_zero]
  by auto

text \<open>
  C3 as stated fails, in both halves. A 1 by 1 room with one agent and no dirty cell has
  positive dimensions and a dirty count in range, and its construction raises. A room
  with a dimension of 0, no agent and no dirty cell is built.
\<close>

theorem create_dimensions_counterexample:
  "create 1 1 1 0 [] rnd_zero = Inl IndexError \<and> \<not> isl (create 0 3 0 0 [] rnd_zero)"
proof
  show "create 1 1 1 0 [] rnd_zero = Inl IndexError"
    by (rule create_IndexError) simp_all
  show "\<not> isl (create 0 3 0 0 [] rnd_zero)"
    by code_simp
qed

text \<open>
  C10, as the code has it. Every cleaner is placed at \<open>(1, 1)\<close>. With at least one agent,
  a room with a dimension of 1 or less has no cell \<open>(1, 1)\<close> and its construction fails
  (with \<^verbatim>\<open>IndexError\<close> when the dimension is 1 and the dirty count is in range), so
  construction succeeds only
  for \<open>M \<ge> 2\<close> and \<open>N \<ge> 2\<close>; and after a construction every scheduled agent stands on
  \<open>(1, 1)\<close>. (Without agents nothing is placed: see the counterexample.)
\<close>

theorem create_agents_need_2x2:
  assumes "1 \<le> agentes"
  shows "(rows \<le> 1 \<or> cols \<le> 1 \<longrightarrow>
            out_of_bounds (MultiGrid_init rows cols) (1, 1) \<and>
            isl (create rows cols agentes sucias ps rnd)) \<and>
         (rows = 1 \<and> 0 < cols \<or> cols = 1 \<and> 0 < rows \<longrightarrow>
            0 \<le> sucias \<longrightarrow> sucias \<le> rows * cols \<longrightarrow>
            create rows cols agentes sucias ps rnd = Inl IndexError) \<and>
         ((\<exists>m. create rows cols agentes sucias ps rnd = Inr m) \<longrightarrow> 2 \<le> rows \<and> 2 \<le> cols) \<and>
         (\<forall>m. create rows cols agentes sucias ps rnd = Inr m \<longrightarrow>
            (\<forall>i\<in>set (schedule_agents m). pos m i = (1, 1)))"
proof -
  have fail: "isl (create rows cols agentes sucias ps rnd)" if small: "rows \<le> 1 \<or> cols \<le> 1"
  proof (cases "0 \<le> rows \<and> 0 \<le> cols \<and> 0 \<le> sucias \<and> sucias \<le> max 0 (rows * cols)")
    case True
    then have "create rows cols agentes sucias ps rnd = Inl IndexError"
      using assms small by (intro create_IndexError) auto
    then show ?thesis by simp
  next
    case False
    then have "create rows cols agentes sucias ps rnd = Inl ValueError"
      by (rule create_ValueError)
    then show ?thesis by simp
  qed
  have out: "out_of_bounds (MultiGrid_init rows cols) (1, 1)" if "rows \<le> 1 \<or> cols \<le> 1"
    using that by (auto simp: out_of_bounds_def MultiGrid_init_def)
  have a: "(\<exists>m. create rows cols agentes sucias ps rnd = Inr m) \<longrightarrow> 2 \<le> rows \<and> 2 \<le> cols"
  proof (intro impI)
    assume "\<exists>m. create rows cols agentes sucias ps rnd = Inr m"
    then have "\<not> isl (create rows cols agentes sucias ps rnd)" by auto
    then have "\<not> (rows \<le> 1 \<or> cols \<le> 1)" using fail by blast
    then show "2 \<le> rows \<and> 2 \<le> cols" by auto
  qed
  have c: "rows = 1 \<and> 0 < cols \<or> cols = 1 \<and> 0 < rows \<longrightarrow>
            0 \<le> sucias \<longrightarrow> sucias \<le> rows * cols \<longrightarrow>
            create rows cols agentes sucias ps rnd = Inl IndexError"
    using assms by (auto intro!: create_IndexError)
  have d: "\<forall>m. create rows cols agentes sucias ps rnd = Inr m \<longrightarrow>
            (\<forall>i\<in>set (schedule_agents m). pos m i = (1, 1))"
  proof (intro allI impI ballI)
    fix m i
    assume ok: "create rows cols agentes sucias ps rnd = Inr m" and i: "i \<in> set (schedule_agents m)"
    have big: "2 \<le> rows \<and> 2 \<le> cols" using a ok by blast
    have v: "0 \<le> rows \<and> 0 \<le> cols \<and> 0 \<le> sucias \<and> sucias \<le> max 0 (rows * cols)"
    proof (rule ccontr)
      assume "\<not> (0 \<le> rows \<and> 0 \<le> cols \<and> 0 \<le> sucias \<and> sucias \<le> max 0 (rows * cols))"
      then have "create rows cols agentes sucias ps rnd = Inl ValueError"
        by (rule create_ValueError)
      then show False using ok by simp
    qed
    from create_Inr [where D = sucias and R = rows and C = cols and K = agentes
          and ps = ps and rnd = rnd] v big obtain m' where
      "create rows cols agentes sucias ps rnd = Inr m'" "schedule_agents m' = [0..<nat agentes]"
      "\<forall>i<nat agentes. pos m' i = (1, 1) \<and> movimientos m' i = 0"
      by blast
    then show "pos m i = (1, 1)" using ok i by auto
  qed
  show ?thesis using a fail out c d by blast
qed

text \<open>The theorem at one agent: a 1 by 5 room cannot be built, a 2 by 2 room can, and
  its agent stands on \<open>(1, 1)\<close>.\<close>

theorem create_agents_need_2x2_witness:
  "(1::int) \<le> 1 \<and> create 1 5 1 2 [0, 3] rnd_zero = Inl IndexError \<and>
   returns (create 2 2 1 1 [3] rnd_zero) (\<lambda>m. pos m 0 = (1, 1))"
proof -
  have "\<not> isl (create 2 2 1 1 [3] rnd_zero)" by code_simp
  then obtain m where m: "create 2 2 1 1 [3] rnd_zero = Inr m"
    by (cases "create 2 2 1 1 [3] rnd_zero") auto
  have "schedule_agents m = [0]"
    using create_Inr [where D = 1 and R = 2 and C = 2 and K = 1 and ps = "[3]"
        and rnd = rnd_zero] m
    by auto
  then have "pos m 0 = (1, 1)"
    using create_agents_need_2x2 [of 1 2 2 1 "[3]" rnd_zero] m by auto
  moreover have "create 1 5 1 2 [0, 3] rnd_zero = Inl IndexError"
    using create_agents_need_2x2 [of 1 1 5 2 "[0, 3]" rnd_zero] by simp
  ultimately show ?thesis using m by simp
qed

text \<open>C10 as stated fails: a 1 by 1 room without agents is built.\<close>

theorem create_no_agents_counterexample:
  "\<not> isl (create 1 1 0 0 [] rnd_zero)"
  by code_simp

section \<open>The agents' step\<close>

lemma get_neighborhood_product:
  "get_neighborhood g p =
     removeAll p (List.product [fst p - 1 ..< min (width g) (fst p + 2)]
                               [snd p - 1 ..< min (height g) (snd p + 2)])"
  by (simp add: get_neighborhood_def Let_def List.product_concat_map)

lemma distinct_get_neighborhood: "distinct (get_neighborhood g p)"
  by (simp add: get_neighborhood_product distinct_removeAll distinct_product)

lemma set_get_neighborhood:
  "set (get_neighborhood g p) =
     {q. q \<noteq> p \<and> fst q < width g \<and> snd q < height g \<and>
         fst p \<le> fst q + 1 \<and> fst q \<le> fst p + 1 \<and> snd p \<le> snd q + 1 \<and> snd q \<le> snd p + 1}"
  by (auto simp: get_neighborhood_product)

lemma get_neighborhood_in_bounds:
  "q \<in> set (get_neighborhood g p) \<Longrightarrow> \<not> out_of_bounds g q"
  by (auto simp: set_get_neighborhood out_of_bounds_def)

lemma get_neighborhood_not_center:
  "q \<in> set (get_neighborhood g p) \<Longrightarrow> q \<noteq> p"
  by (simp add: set_get_neighborhood)

lemma set_valid_moves:
  "set (valid_moves m i) =
     {q \<in> set (get_neighborhood (grid m) (pos m i)). \<not> list_ex es_limpiador (contents (grid m) q)}"
  by (auto simp: valid_moves_def get_cell_list_contents_def)

lemma distinct_valid_moves: "distinct (valid_moves m i)"
  by (simp add: valid_moves_def distinct_get_neighborhood)

lemma choice_in_valid_moves:
  assumes "valid_moves m i \<noteq> []"
  shows "valid_moves m i ! choice_index m (length (valid_moves m i)) \<in> set (valid_moves m i)"
  using assms by (simp add: choice_index_def)

lemma fold_limpiar_si_sucia:
  "fold limpiar_si_sucia xs m = m\<lparr>sucia := (\<lambda>c. sucia m c \<and> Celda c \<notin> set xs)\<rparr>"
proof (induction xs arbitrary: m)
  case Nil
  then show ?case by simp
next
  case (Cons x xs)
  have one: "limpiar_si_sucia x m = m\<lparr>sucia := (\<lambda>c. sucia m c \<and> Celda c \<noteq> x)\<rparr>"
  proof (cases x)
    case (Celda c)
    have "(sucia m)(c := False) = (\<lambda>c'. sucia m c' \<and> c' \<noteq> c)"
      by (rule ext) auto
    moreover have "\<not> sucia m c \<Longrightarrow> m = m\<lparr>sucia := (\<lambda>c'. sucia m c' \<and> c' \<noteq> c)\<rparr>"
    proof -
      assume "\<not> sucia m c"
      then have "sucia m = (\<lambda>c'. sucia m c' \<and> c' \<noteq> c)" by (intro ext) auto
      then have "m\<lparr>sucia := (\<lambda>c'. sucia m c' \<and> c' \<noteq> c)\<rparr> = m\<lparr>sucia := sucia m\<rparr>" by simp
      then show ?thesis by simp
    qed
    ultimately show ?thesis using Celda
      by (auto simp: limpiar_si_sucia_def limpiar_def)
  next
    case (Limpiador j)
    then show ?thesis by (simp add: limpiar_si_sucia_def)
  qed
  have "(\<lambda>c. (sucia m c \<and> Celda c \<noteq> x) \<and> Celda c \<notin> set xs)
      = (\<lambda>c. sucia m c \<and> Celda c \<notin> set (x # xs))"
    by (intro ext) auto
  then show ?case
    by (simp add: Cons.IH one)
qed

lemma move_agent_Inr:
  assumes "\<not> out_of_bounds g new" and "a \<in> set (contents g old)" and "new \<noteq> old"
  shows "move_agent g a old new =
     Inr (g\<lparr>contents := ((contents g)(old := remove1 a (contents g old)))
                           (new := contents g new @ [a])\<rparr>)"
  using assms
  by (simp add: move_agent_def remove_agent_def place_agent_def out_of_bounds_def)

lemma move_agent_absent:
  assumes "\<not> out_of_bounds g new" and "a \<notin> set (contents g old)"
  shows "move_agent g a old new = Inl ValueError"
  using assms by (simp add: move_agent_def remove_agent_def)

lemma mover_stay:
  assumes "valid_moves m i = []"
  shows "mover i m = Inr m"
  using assms by (simp add: mover_def)

lemma nueva_facts:
  assumes "valid_moves m i \<noteq> []"
  defines "nueva \<equiv> valid_moves m i ! choice_index m (length (valid_moves m i))"
  shows "nueva \<in> set (valid_moves m i)" and "\<not> out_of_bounds (grid m) nueva"
    and "nueva \<noteq> pos m i" and "\<not> list_ex es_limpiador (contents (grid m) nueva)"
proof -
  show in_valid: "nueva \<in> set (valid_moves m i)"
    unfolding nueva_def by (rule choice_in_valid_moves [OF assms(1)])
  then have nb: "nueva \<in> set (get_neighborhood (grid m) (pos m i))"
    and free: "\<not> list_ex es_limpiador (contents (grid m) nueva)"
    by (simp_all add: set_valid_moves)
  show "\<not> out_of_bounds (grid m) nueva" using nb by (rule get_neighborhood_in_bounds)
  show "nueva \<noteq> pos m i" using nb by (rule get_neighborhood_not_center)
  show "\<not> list_ex es_limpiador (contents (grid m) nueva)" by (rule free)
qed

lemma mover_move:
  assumes "valid_moves m i \<noteq> []" and "Limpiador i \<in> set (contents (grid m) (pos m i))"
  defines "nueva \<equiv> valid_moves m i ! choice_index m (length (valid_moves m i))"
  shows "mover i m =
     Inr (m\<lparr>drawn := drawn m + 1,
            grid := (grid m)\<lparr>contents :=
               ((contents (grid m))(pos m i := remove1 (Limpiador i) (contents (grid m) (pos m i))))
                 (nueva := contents (grid m) nueva @ [Limpiador i])\<rparr>,
            pos := (pos m)(i := nueva),
            movimientos := (movimientos m)(i := movimientos m i + 1)\<rparr>)"
proof -
  have b: "\<not> out_of_bounds (grid m) nueva" and ne: "nueva \<noteq> pos m i"
    unfolding nueva_def by (rule nueva_facts [OF assms(1)])+
  have "move_agent (grid m) (Limpiador i) (pos m i) nueva =
     Inr ((grid m)\<lparr>contents :=
               ((contents (grid m))(pos m i := remove1 (Limpiador i) (contents (grid m) (pos m i))))
                 (nueva := contents (grid m) nueva @ [Limpiador i])\<rparr>)"
    by (rule move_agent_Inr [OF b assms(2) ne])
  then show ?thesis
    using assms(1) by (simp add: mover_def Let_def nueva_def)
qed

lemma mover_absent:
  assumes "valid_moves m i \<noteq> []" and "Limpiador i \<notin> set (contents (grid m) (pos m i))"
  shows "mover i m = Inl ValueError"
proof -
  have b: "\<not> out_of_bounds (grid m) (valid_moves m i ! choice_index m (length (valid_moves m i)))"
    by (rule nueva_facts [OF assms(1)])
  have "move_agent (grid m) (Limpiador i) (pos m i)
          (valid_moves m i ! choice_index m (length (valid_moves m i))) = Inl ValueError"
    by (rule move_agent_absent [OF b assms(2)])
  then show ?thesis
    using assms(1) by (simp add: mover_def Let_def)
qed

lemma Limpiador_step_limpia:
  assumes "list_ex (es_celda_sucia m) (contents (grid m) (pos m i))"
  shows "Limpiador_step i m =
     Inr (m\<lparr>sucia := (\<lambda>c. sucia m c \<and> Celda c \<notin> set (contents (grid m) (pos m i)))\<rparr>)"
proof -
  have "list_ex (es_celda_sucia m) (get_cell_list_contents (grid m) (pos m i))"
    using assms by (simp only: get_cell_list_contents_def)
  then show ?thesis
    apply (subst Limpiador_step_def)
    apply (subst Let_def)
    apply (simp only: if_True fold_limpiar_si_sucia)
    apply (simp only: get_cell_list_contents_def)
    done
qed

lemma Limpiador_step_mover:
  assumes "\<not> list_ex (es_celda_sucia m) (contents (grid m) (pos m i))"
  shows "Limpiador_step i m = mover i m"
proof -
  have "\<not> list_ex (es_celda_sucia m) (get_cell_list_contents (grid m) (pos m i))"
    using assms by (simp add: get_cell_list_contents_def)
  then show ?thesis
    apply (subst Limpiador_step_def)
    apply (subst Let_def)
    apply (simp only: if_False)
    done
qed

text \<open>The three ways a cleaner's step can end without raising.\<close>

lemma Limpiador_step_cases:
  assumes "Limpiador_step i m = Inr m'"
  obtains
    (limpia) "list_ex (es_celda_sucia m) (contents (grid m) (pos m i))"
      and "m' = m\<lparr>sucia := (\<lambda>c. sucia m c \<and> Celda c \<notin> set (contents (grid m) (pos m i)))\<rparr>"
  | (queda) "\<not> list_ex (es_celda_sucia m) (contents (grid m) (pos m i))"
      and "valid_moves m i = []" and "m' = m"
  | (mueve) nueva where "\<not> list_ex (es_celda_sucia m) (contents (grid m) (pos m i))"
      and "valid_moves m i \<noteq> []"
      and "nueva = valid_moves m i ! choice_index m (length (valid_moves m i))"
      and "Limpiador i \<in> set (contents (grid m) (pos m i))"
      and "m' = m\<lparr>drawn := drawn m + 1,
            grid := (grid m)\<lparr>contents :=
               ((contents (grid m))(pos m i := remove1 (Limpiador i) (contents (grid m) (pos m i))))
                 (nueva := contents (grid m) nueva @ [Limpiador i])\<rparr>,
            pos := (pos m)(i := nueva),
            movimientos := (movimientos m)(i := movimientos m i + 1)\<rparr>"
proof (cases "list_ex (es_celda_sucia m) (contents (grid m) (pos m i))")
  case True
  have "(Inr m' :: error + HabitacionModel) = Inr (m\<lparr>sucia := (\<lambda>c. sucia m c \<and> Celda c \<notin> set (contents (grid m) (pos m i)))\<rparr>)"
    using assms [symmetric] Limpiador_step_limpia [OF True] by (rule trans)
  then have "m' = m\<lparr>sucia := (\<lambda>c. sucia m c \<and> Celda c \<notin> set (contents (grid m) (pos m i)))\<rparr>"
    by (simp only: sum.inject)
  with True show ?thesis by (rule limpia)
next
  case False
  have mv: "mover i m = Inr m'"
    using Limpiador_step_mover [OF False, symmetric] assms by (rule trans)
  show ?thesis
  proof (cases "valid_moves m i = []")
    case True
    have "(Inr m' :: error + HabitacionModel) = Inr m" using mv [symmetric] mover_stay [OF True] by (rule trans)
    then have "m' = m" by (simp only: sum.inject)
    with False True show ?thesis by (rule queda)
  next
    case ne: False
    show ?thesis
    proof (cases "Limpiador i \<in> set (contents (grid m) (pos m i))")
      case True
      define nueva where "nueva = valid_moves m i ! choice_index m (length (valid_moves m i))"
      have "(Inr m' :: error + HabitacionModel) = Inr (m\<lparr>drawn := drawn m + 1,
            grid := (grid m)\<lparr>contents :=
               ((contents (grid m))(pos m i := remove1 (Limpiador i) (contents (grid m) (pos m i))))
                 (nueva := contents (grid m) nueva @ [Limpiador i])\<rparr>,
            pos := (pos m)(i := nueva),
            movimientos := (movimientos m)(i := movimientos m i + 1)\<rparr>)"
        unfolding nueva_def using mv [symmetric] mover_move [OF ne True] by (rule trans)
      then have "m' = m\<lparr>drawn := drawn m + 1,
            grid := (grid m)\<lparr>contents :=
               ((contents (grid m))(pos m i := remove1 (Limpiador i) (contents (grid m) (pos m i))))
                 (nueva := contents (grid m) nueva @ [Limpiador i])\<rparr>,
            pos := (pos m)(i := nueva),
            movimientos := (movimientos m)(i := movimientos m i + 1)\<rparr>"
        by (simp only: sum.inject)
      with False ne nueva_def True show ?thesis by (rule mueve)
    next
      case absent: False
      have "Inr m' = (Inl ValueError :: error + HabitacionModel)"
        using mv [symmetric] mover_absent [OF ne absent] by (rule trans)
      then show ?thesis by simp
    qed
  qed
qed

text \<open>A placed cleaner's step does not raise.\<close>

lemma Limpiador_step_total:
  assumes "Limpiador i \<in> set (contents (grid m) (pos m i))"
  shows "\<exists>m'. Limpiador_step i m = Inr m'"
proof (cases "list_ex (es_celda_sucia m) (contents (grid m) (pos m i))")
  case True
  then show ?thesis by (simp add: Limpiador_step_limpia)
next
  case False
  then show ?thesis
    using mover_stay [of m i] mover_move [OF _ assms]
    by (cases "valid_moves m i = []") (auto simp add: Limpiador_step_mover)
qed

lemma evolves_refl: "evolves m m"
  by (simp add: evolves_def)

lemma evolves_trans:
  assumes "evolves a b" and "evolves b c"
  shows "evolves a c"
  using assms unfolding evolves_def
  by (metis (no_types, lifting) order_trans)

lemma es_limpiador_simps [simp]:
  "es_limpiador (Limpiador i)" "\<not> es_limpiador (Celda c)"
  by (simp_all add: es_limpiador_def)

lemma es_celda_sucia_simps [simp]:
  "es_celda_sucia m (Celda c) = sucia m c" "\<not> es_celda_sucia m (Limpiador i)"
  by (simp_all add: es_celda_sucia_def)

lemma filter_remove1_limpiador:
  "filter (\<lambda>a. \<not> es_limpiador a) (remove1 (Limpiador i) xs) = filter (\<lambda>a. \<not> es_limpiador a) xs"
  by (induction xs) auto

lemma Limpiador_step_evolves:
  assumes "Limpiador_step i m = Inr m'"
  shows "evolves m m'"
  using assms
proof (cases rule: Limpiador_step_cases)
  case limpia
  then show ?thesis by (simp add: evolves_def placed_def)
next
  case queda
  then show ?thesis by (simp add: evolves_refl)
next
  case (mueve nueva)
  have nv: "nueva \<in> set (valid_moves m i)" "\<not> out_of_bounds (grid m) nueva" "nueva \<noteq> pos m i"
    unfolding mueve(3) by (rule nueva_facts [OF mueve(2)])+
  have cells: "filter (\<lambda>a. \<not> es_limpiador a) (contents (grid m') p) =
           filter (\<lambda>a. \<not> es_limpiador a) (contents (grid m) p)" for p
    using nv(3) by (simp add: mueve(5) filter_remove1_limpiador)
  have pl: "placed m' j" if "placed m j" for j
  proof (cases "j = i")
    case True
    then show ?thesis using nv by (simp add: placed_def mueve(5) out_of_bounds_def)
  next
    case False
    then show ?thesis using that nv(3)
      by (auto simp add: placed_def mueve(5) out_of_bounds_def)
  qed
  show ?thesis
    unfolding evolves_def using cells pl by (simp add: mueve(5))
qed

section \<open>Rounds and steps of the model\<close>

lemma activate_evolves:
  assumes "activate order m = Inr m'"
  shows "evolves m m'"
proof -
  have "for_each Limpiador_step order m = Inr m'" using assms by (simp add: activate_def)
  then show ?thesis
  proof (rule for_each_invariant)
    show "evolves m m" by (rule evolves_refl)
  next
    fix x a b
    assume "evolves m a" and "Limpiador_step x a = Inr b"
    then show "evolves m b" using Limpiador_step_evolves evolves_trans by blast
  qed
qed

lemma well_placed_evolves:
  assumes "evolves m m'" and "well_placed m"
  shows "well_placed m'"
  using assms by (simp add: evolves_def well_placed_def list_all_iff)

lemma activate_total:
  assumes "well_placed m" and "set order \<subseteq> set (schedule_agents m)"
  shows "\<exists>m'. activate order m = Inr m'"
proof -
  have "\<exists>s'. for_each Limpiador_step order m = Inr s' \<and> (evolves m s' \<and> well_placed s')"
  proof (rule for_each_total)
    show "evolves m m \<and> well_placed m" using assms(1) by (simp add: evolves_refl)
  next
    fix x a
    assume x: "x \<in> set order" and a: "evolves m a \<and> well_placed a"
    then have "x \<in> set (schedule_agents a)" using assms(2) by (auto simp: evolves_def)
    then have "placed a x" using a by (simp add: well_placed_def list_all_iff)
    then obtain b where b: "Limpiador_step x a = Inr b"
      using Limpiador_step_total [of x a] by (auto simp: placed_def)
    then have ab: "evolves a b" by (rule Limpiador_step_evolves)
    have "evolves m b" using a ab evolves_trans by blast
    moreover have "well_placed b" using ab a well_placed_evolves by blast
    ultimately show "\<exists>b. Limpiador_step x a = Inr b \<and> (evolves m b \<and> well_placed b)"
      using b by blast
  qed
  then show ?thesis by (auto simp: activate_def)
qed

lemma schedule_step_Inr:
  assumes "schedule_step m = Inr m'"
  obtains m1 where "activate (schedule_agents m) m = Inr m1"
    and "m' = m1\<lparr>schedule_steps := schedule_steps m1 + 1\<rparr>"
  using assms by (auto simp: schedule_step_def split: sum.splits)

lemma evolves_schedule_steps_update:
  "evolves m (m\<lparr>schedule_steps := k\<rparr>)"
  by (simp add: evolves_def placed_def)

lemma schedule_step_evolves:
  assumes "schedule_step m = Inr m'"
  shows "evolves m m'"
  using assms
proof (cases rule: schedule_step_Inr)
  case (1 m1)
  have "evolves m m1" using 1(1) by (rule activate_evolves)
  moreover have "evolves m1 m'" unfolding 1(2) by (rule evolves_schedule_steps_update)
  ultimately show ?thesis by (rule evolves_trans)
qed

lemma contar_celdas_limpias_Inr:
  "celdas_sucias m \<noteq> 0 \<Longrightarrow>
     contar_celdas_limpias m = Inr (of_nat (celdas_limpias m) / of_int (celdas_sucias m) * 100)"
  by (simp add: contar_celdas_limpias_def)

lemma contar_celdas_limpias_Inl:
  "celdas_sucias m = 0 \<Longrightarrow> contar_celdas_limpias m = Inl ZeroDivisionError"
  by (simp add: contar_celdas_limpias_def)

lemma es_celda_limpia_simps [simp]:
  "es_celda_limpia m (Celda c) = (\<not> sucia m c)" "\<not> es_celda_limpia m (Limpiador i)"
  by (simp_all add: es_celda_limpia_def)

lemma es_celda_limpia_datacollector [simp]:
  "es_celda_limpia (m\<lparr>datacollector := d\<rparr>) = es_celda_limpia m"
  by (rule ext) (simp add: es_celda_limpia_def split: occupant.splits)

lemma celdas_limpias_datacollector [simp]:
  "celdas_limpias (m\<lparr>datacollector := d\<rparr>) = celdas_limpias m"
  by (simp add: celdas_limpias_def)

lemma contar_celdas_limpias_datacollector [simp]:
  "contar_celdas_limpias (m\<lparr>datacollector := d\<rparr>) = contar_celdas_limpias m"
  by (simp add: contar_celdas_limpias_def)

text \<open>The two ways \<^verbatim>\<open>HabitacionModel.step\<close> can end without raising.\<close>

lemma step_cases:
  assumes "step m = Inr m'"
  obtains
    (terminal) p where "contar_celdas_limpias m = Inr p" and "100 \<le> p"
      and "m' = m\<lparr>datacollector := datacollector m @ [(p, contar_movimientos m)], running := False\<rparr>"
  | (round) p where "contar_celdas_limpias m = Inr p" and "p < 100"
      and "schedule_step (m\<lparr>datacollector := datacollector m @ [(p, contar_movimientos m)]\<rparr>) = Inr m'"
proof (cases "contar_celdas_limpias m")
  case (Inl e)
  then show ?thesis using assms by (simp add: step_def collect_def)
next
  case (Inr p)
  show ?thesis
  proof (cases "100 \<le> p")
    case True
    then show ?thesis using assms Inr terminal [of p] by (simp add: step_def collect_def)
  next
    case False
    then show ?thesis using assms Inr round [of p] by (simp add: step_def collect_def)
  qed
qed

lemma step_terminal:
  assumes "contar_celdas_limpias m = Inr p" and "100 \<le> p"
  shows "step m = Inr (m\<lparr>datacollector := datacollector m @ [(p, contar_movimientos m)], running := False\<rparr>)"
  using assms by (simp add: step_def collect_def)

lemma step_round:
  assumes "contar_celdas_limpias m = Inr p" and "p < 100"
  shows "step m = schedule_step (m\<lparr>datacollector := datacollector m @ [(p, contar_movimientos m)]\<rparr>)"
  using assms by (simp add: step_def collect_def)

lemma evolves_datacollector_update: "evolves m (m\<lparr>datacollector := d\<rparr>)"
  by (simp add: evolves_def placed_def)

lemma evolves_running_update: "evolves m (m\<lparr>running := r\<rparr>)"
  by (simp add: evolves_def placed_def)

lemma step_evolves:
  assumes "step m = Inr m'"
  shows "evolves m m'"
  using assms
proof (cases rule: step_cases)
  case (terminal p)
  have "evolves m (m\<lparr>datacollector := datacollector m @ [(p, contar_movimientos m)]\<rparr>)"
    by (rule evolves_datacollector_update)
  moreover have "evolves (m\<lparr>datacollector := datacollector m @ [(p, contar_movimientos m)]\<rparr>) m'"
    unfolding terminal(3) by (rule evolves_running_update)
  ultimately show ?thesis by (rule evolves_trans)
next
  case (round p)
  have "evolves m (m\<lparr>datacollector := datacollector m @ [(p, contar_movimientos m)]\<rparr>)"
    by (rule evolves_datacollector_update)
  moreover have "evolves (m\<lparr>datacollector := datacollector m @ [(p, contar_movimientos m)]\<rparr>) m'"
    using round(3) by (rule schedule_step_evolves)
  ultimately show ?thesis by (rule evolves_trans)
qed

lemma steps_evolves:
  assumes "steps n m = Inr m'"
  shows "evolves m m'"
  using assms
proof (induction n arbitrary: m)
  case 0
  then show ?case by (simp add: evolves_refl)
next
  case (Suc n)
  then obtain m1 where "step m = Inr m1" and "steps n m1 = Inr m'"
    by (auto split: sum.splits)
  then show ?case using step_evolves Suc.IH evolves_trans by blast
qed

text \<open>A step of a well-formed model with a non-zero dirty count does not raise.\<close>

lemma step_total:
  assumes "well_placed m" and "celdas_sucias m \<noteq> 0"
  shows "\<exists>m'. step m = Inr m'"
proof -
  define p where "p = (of_nat (celdas_limpias m) / of_int (celdas_sucias m) * 100 :: rat)"
  have c: "contar_celdas_limpias m = Inr p"
    using assms(2) by (simp add: contar_celdas_limpias_Inr p_def)
  show ?thesis
  proof (cases "100 \<le> p")
    case True
    then show ?thesis using step_terminal [OF c] by simp
  next
    case False
    define m1 where "m1 = m\<lparr>datacollector := datacollector m @ [(p, contar_movimientos m)]\<rparr>"
    have "well_placed m1"
      using assms(1) evolves_datacollector_update well_placed_evolves unfolding m1_def by blast
    then obtain m2 where "activate (schedule_agents m1) m1 = Inr m2"
      using activate_total [of m1 "schedule_agents m1"] by auto
    then have "\<exists>m'. schedule_step m1 = Inr m'" by (simp add: schedule_step_def)
    then show ?thesis using step_round [OF c] False by (simp add: m1_def)
  qed
qed

lemma steps_total:
  assumes "well_placed m" and "celdas_sucias m \<noteq> 0"
  shows "\<exists>m'. steps n m = Inr m'"
  using assms
proof (induction n arbitrary: m)
  case 0
  then show ?case by simp
next
  case (Suc n)
  from step_total [OF Suc.prems] obtain m1 where m1: "step m = Inr m1" by blast
  then have ev: "evolves m m1" by (rule step_evolves)
  then have "well_placed m1" using Suc.prems(1) by (rule well_placed_evolves)
  moreover have "celdas_sucias m1 \<noteq> 0" using ev Suc.prems(2) by (simp add: evolves_def)
  ultimately obtain m' where "steps n m1 = Inr m'" using Suc.IH by blast
  then show ?case using m1 by simp
qed

lemma evolvesD:
  assumes "evolves m m'"
  shows "celdas_sucias m' = celdas_sucias m" and "dirty_positions m' = dirty_positions m"
    and "schedule_agents m' = schedule_agents m"
    and "width (grid m') = width (grid m)" and "height (grid m') = height (grid m)"
    and "random m' = random m"
    and "\<And>c. sucia m' c \<Longrightarrow> sucia m c"
    and "\<And>p. filter (\<lambda>a. \<not> es_limpiador a) (contents (grid m') p) =
           filter (\<lambda>a. \<not> es_limpiador a) (contents (grid m) p)"
    and "\<And>j. movimientos m j \<le> movimientos m' j"
    and "\<And>j. placed m j \<Longrightarrow> placed m' j"
  using assms unfolding evolves_def by blast+

lemma length_filter_mono:
  assumes "\<And>x. x \<in> set xs \<Longrightarrow> P x \<Longrightarrow> Q x"
  shows "length (filter P xs) \<le> length (filter Q xs)"
  using assms by (induction xs) auto

lemma es_celda_limpia_no_limpiador:
  "filter (es_celda_limpia m) xs = filter (es_celda_limpia m) (filter (\<lambda>a. \<not> es_limpiador a) xs)"
proof -
  have "es_celda_limpia m a \<Longrightarrow> \<not> es_limpiador a" for a by (cases a) auto
  then show ?thesis by (auto intro: filter_cong)
qed

lemma celdas_limpias_celdas:
  "celdas_limpias m =
     length (filter (es_celda_limpia m)
       (concat (map (\<lambda>p. filter (\<lambda>a. \<not> es_limpiador a) (contents (grid m) p)) (dirty_positions m))))"
proof -
  have "celdas_limpias m =
     length (filter (es_celda_limpia m)
       (filter (\<lambda>a. \<not> es_limpiador a) (concat (map (contents (grid m)) (dirty_positions m)))))"
    unfolding celdas_limpias_def get_cell_list_contents_def
    by (subst es_celda_limpia_no_limpiador) (simp add: get_cell_list_contents_def [abs_def])
  then show ?thesis by (simp add: filter_concat comp_def)
qed

lemma celdas_limpias_mono:
  assumes "evolves m m'"
  shows "celdas_limpias m \<le> celdas_limpias m'"
proof -
  have same: "(\<lambda>p. filter (\<lambda>a. \<not> es_limpiador a) (contents (grid m') p)) =
        (\<lambda>p. filter (\<lambda>a. \<not> es_limpiador a) (contents (grid m) p))"
    by (intro ext) (rule evolvesD(8) [OF assms])
  have imp: "es_celda_limpia m a \<Longrightarrow> es_celda_limpia m' a" for a
    using evolvesD(7) [OF assms] by (cases a) auto
  show ?thesis
    unfolding celdas_limpias_celdas same evolvesD(2) [OF assms]
    by (rule length_filter_mono) (rule imp)
qed

lemma create_InrD:
  assumes "create R C K D ps rnd = Inr m"
  shows "0 \<le> D" and "D \<le> max 0 (R * C)" and "K \<le> 0 \<or> (2 \<le> R \<and> 2 \<le> C)"
    and "celdas_sucias m = D" and "running m" and "schedule_steps m = 0"
    and "datacollector m = []" and "random m = rnd" and "drawn m = 0"
    and "schedule_agents m = [0..<nat K]"
    and "width (grid m) = nat R" and "height (grid m) = nat C"
    and "\<forall>i<nat K. pos m i = (1, 1) \<and> movimientos m i = 0"
    and "\<forall>x y. contents (grid m) (x, y) =
        (if x < nat R \<and> y < nat C
         then Celda (x * nat C + y) # (if (x, y) = (1, 1) then map Limpiador [0..<nat K] else [])
         else [])"
    and "\<forall>v. sucia m v = (v < nat R * nat C \<and> v \<in> set ps)"
    and "dirty_positions m =
       rev (map (\<lambda>k. (k div nat C, k mod nat C)) (filter (\<lambda>k. k \<in> set ps) [0..<nat R * nat C]))"
proof -
  have v: "0 \<le> R \<and> 0 \<le> C \<and> 0 \<le> D \<and> D \<le> max 0 (R * C)"
  proof (rule ccontr)
    assume "\<not> (0 \<le> R \<and> 0 \<le> C \<and> 0 \<le> D \<and> D \<le> max 0 (R * C))"
    then have "create R C K D ps rnd = Inl ValueError"
      by (rule create_ValueError)
    then show False using assms by simp
  qed
  then show "0 \<le> D" and "D \<le> max 0 (R * C)" by blast+
  show k: "K \<le> 0 \<or> (2 \<le> R \<and> 2 \<le> C)"
  proof (rule ccontr)
    assume "\<not> (K \<le> 0 \<or> (2 \<le> R \<and> 2 \<le> C))"
    then have "1 \<le> K" "R < 2 \<or> C < 2" by auto
    then have "create R C K D ps rnd = Inl IndexError"
      using v by (intro create_IndexError) auto
    then show False using assms by simp
  qed
  from create_Inr [where D = D and R = R and C = C and K = K and ps = ps and rnd = rnd]
    v k obtain m' where
    "create R C K D ps rnd = Inr m'"
    and p: "celdas_sucias m' = D" "running m'" "schedule_steps m' = 0"
    "datacollector m' = []" "random m' = rnd" "drawn m' = 0"
    "schedule_agents m' = [0..<nat K]"
    "width (grid m') = nat R" "height (grid m') = nat C"
    "\<forall>i<nat K. pos m' i = (1, 1) \<and> movimientos m' i = 0"
    "\<forall>x y. contents (grid m') (x, y) =
        (if x < nat R \<and> y < nat C
         then Celda (x * nat C + y) # (if (x, y) = (1, 1) then map Limpiador [0..<nat K] else [])
         else [])"
    "\<forall>v. sucia m' v = (v < nat R * nat C \<and> v \<in> set ps)"
    "dirty_positions m' =
       rev (map (\<lambda>k. (k div nat C, k mod nat C)) (filter (\<lambda>k. k \<in> set ps) [0..<nat R * nat C]))"
    by blast
  then have "m' = m" using assms by simp
  with p show "celdas_sucias m = D" and "running m" and "schedule_steps m = 0"
    and "datacollector m = []" and "random m = rnd" and "drawn m = 0"
    and "schedule_agents m = [0..<nat K]"
    and "width (grid m) = nat R" and "height (grid m) = nat C"
    and "\<forall>i<nat K. pos m i = (1, 1) \<and> movimientos m i = 0"
    and "\<forall>x y. contents (grid m) (x, y) =
        (if x < nat R \<and> y < nat C
         then Celda (x * nat C + y) # (if (x, y) = (1, 1) then map Limpiador [0..<nat K] else [])
         else [])"
    and "\<forall>v. sucia m v = (v < nat R * nat C \<and> v \<in> set ps)"
    and "dirty_positions m =
       rev (map (\<lambda>k. (k div nat C, k mod nat C)) (filter (\<lambda>k. k \<in> set ps) [0..<nat R * nat C]))"
    by simp_all
qed

lemma create_well_placed:
  assumes "create R C K D ps rnd = Inr m"
  shows "well_placed m"
proof -
  note d = create_InrD [OF assms]
  have "placed m i" if "i < nat K" for i
  proof -
    have K: "\<not> K \<le> 0" using that by simp
    then have big: "2 \<le> R" "2 \<le> C" using d(3) by auto
    have "pos m i = (1, 1)" using d(13) that by simp
    moreover have "contents (grid m) (1, 1) = Celda (1 * nat C + 1) # map Limpiador [0..<nat K]"
      using d(14) big by auto
    moreover have "\<not> out_of_bounds (grid m) (1, 1)"
      using big d(11,12) by (auto simp: out_of_bounds_def)
    ultimately show ?thesis using that by (simp add: placed_def)
  qed
  then show ?thesis by (simp add: well_placed_def list_all_iff d(10))
qed

section \<open>Claims about termination\<close>

lemma Limpiador_step_keeps:
  assumes "Limpiador_step i m = Inr m'"
  shows "running m' = running m \<and> schedule_steps m' = schedule_steps m \<and>
         datacollector m' = datacollector m"
  using assms by (cases rule: Limpiador_step_cases) simp_all

lemma activate_keeps:
  assumes "activate order m = Inr m'"
  shows "running m' = running m \<and> schedule_steps m' = schedule_steps m \<and>
         datacollector m' = datacollector m"
proof -
  have "for_each Limpiador_step order m = Inr m'" using assms by (simp add: activate_def)
  then show ?thesis
  proof (rule for_each_invariant)
    show "running m = running m \<and> schedule_steps m = schedule_steps m \<and>
         datacollector m = datacollector m" by simp
  next
    fix x a b
    assume "running a = running m \<and> schedule_steps a = schedule_steps m \<and>
         datacollector a = datacollector m" and "Limpiador_step x a = Inr b"
    then show "running b = running m \<and> schedule_steps b = schedule_steps m \<and>
         datacollector b = datacollector m"
      using Limpiador_step_keeps [of x a b] by simp
  qed
qed

lemma step_round_counts:
  assumes "contar_celdas_limpias m = Inr p" and "p < 100" and "step m = Inr m'"
  shows "running m' = running m \<and> schedule_steps m' = schedule_steps m + 1"
proof -
  have "schedule_step (m\<lparr>datacollector := datacollector m @ [(p, contar_movimientos m)]\<rparr>) = Inr m'"
    using assms step_round by simp
  then show ?thesis
  proof (cases rule: schedule_step_Inr)
    case (1 m1)
    then show ?thesis using activate_keeps [OF 1(1)] by simp
  qed
qed

lemma contar_celdas_limpias_running [simp]:
  "contar_celdas_limpias (m\<lparr>running := r\<rparr>) = contar_celdas_limpias m"
proof -
  have "es_celda_limpia (m\<lparr>running := r\<rparr>) = es_celda_limpia m"
    by (rule ext) (simp add: es_celda_limpia_def split: occupant.splits)
  then show ?thesis by (simp add: contar_celdas_limpias_def celdas_limpias_def)
qed

lemma steps_terminal:
  assumes "contar_celdas_limpias m = Inr p" and "100 \<le> p"
  shows "\<exists>m'. steps (Suc n) m = Inr m' \<and> \<not> running m' \<and> grid m' = grid m \<and>
           sucia m' = sucia m \<and> pos m' = pos m \<and> movimientos m' = movimientos m \<and>
           schedule_steps m' = schedule_steps m \<and> drawn m' = drawn m \<and>
           contar_celdas_limpias m' = Inr p"
  using assms
proof (induction n arbitrary: m)
  case 0
  then show ?case using step_terminal [OF 0] by simp
next
  case (Suc n)
  define m1 where
    "m1 = m\<lparr>datacollector := datacollector m @ [(p, contar_movimientos m)], running := False\<rparr>"
  have s: "step m = Inr m1" unfolding m1_def by (rule step_terminal [OF Suc.prems])
  have c: "contar_celdas_limpias m1 = Inr p" using Suc.prems(1) by (simp add: m1_def)
  from Suc.IH [OF c Suc.prems(2)] obtain m' where
    "steps (Suc n) m1 = Inr m'" "\<not> running m'" "grid m' = grid m1"
    "sucia m' = sucia m1" "pos m' = pos m1" "movimientos m' = movimientos m1"
    "schedule_steps m' = schedule_steps m1" "drawn m' = drawn m1"
    "contar_celdas_limpias m' = Inr p"
    by blast
  moreover have "steps (Suc (Suc n)) m = steps (Suc n) m1" using s by simp
  ultimately show ?case by (simp add: m1_def)
qed

text \<open>
  C2: the claim says that with \<open>dirty_count = 0\<close> the clean fraction is 100 and the first
  step reports it and stops the simulation. The code divides by \<^verbatim>\<open>self.celdas_sucias\<close>:
  for every model built with a dirty count of 0, \<^verbatim>\<open>contar_celdas_limpias\<close> raises
  \<^verbatim>\<open>ZeroDivisionError\<close>, and so does \<^verbatim>\<open>step\<close>, whose first action is to collect that
  metric. No percentage is reported and \<^verbatim>\<open>running\<close> is never set to false.
\<close>

theorem dirty_count_zero_raises:
  assumes "create rows cols agentes 0 ps rnd = Inr m"
  shows "contar_celdas_limpias m = Inl ZeroDivisionError \<and> step m = Inl ZeroDivisionError"
proof -
  have "celdas_sucias m = 0" by (rule create_InrD(4) [OF assms])
  then have "contar_celdas_limpias m = Inl ZeroDivisionError"
    by (rule contar_celdas_limpias_Inl)
  then show ?thesis by (simp add: step_def collect_def)
qed

text \<open>The theorem at a 3 by 3 room with one agent and no dirty cell.\<close>

theorem dirty_count_zero_raises_witness:
  "returns (create 3 3 1 0 [] rnd_zero)
     (\<lambda>m. contar_celdas_limpias m = Inl ZeroDivisionError \<and> step m = Inl ZeroDivisionError)"
proof -
  have "\<not> isl (create 3 3 1 0 [] rnd_zero)" by code_simp
  then obtain m where m: "create 3 3 1 0 [] rnd_zero = Inr m"
    by (cases "create 3 3 1 0 [] rnd_zero") auto
  show ?thesis using dirty_count_zero_raises [OF m] m by simp
qed

text \<open>
  C4: let \<open>p\<close> be the clean fraction of a state. If \<open>p \<ge> 100\<close>, the step returns with
  \<^verbatim>\<open>running\<close> false and without advancing any agent, and so does every later step: after
  any number of further calls the grid, the cells' dirt, the agents' positions and
  movement counters, the step counter and the random generator are what they were, and
  the clean fraction is still \<open>p\<close>. If \<open>p < 100\<close>, a step that returns leaves \<^verbatim>\<open>running\<close>
  as it was and counts one round, so \<^verbatim>\<open>running\<close> becomes false at the first step that
  sees \<open>p \<ge> 100\<close> and not before. (Only the data collector still grows: each call
  appends one row.)
\<close>

theorem terminated_is_absorbing:
  assumes "contar_celdas_limpias m = Inr p"
  shows "(100 \<le> p \<longrightarrow>
            (\<exists>m'. steps (Suc n) m = Inr m' \<and> \<not> running m' \<and> grid m' = grid m \<and>
               sucia m' = sucia m \<and> pos m' = pos m \<and> movimientos m' = movimientos m \<and>
               schedule_steps m' = schedule_steps m \<and> drawn m' = drawn m \<and>
               contar_celdas_limpias m' = Inr p)) \<and>
         (p < 100 \<longrightarrow>
            (\<forall>m'. step m = Inr m' \<longrightarrow>
               running m' = running m \<and> schedule_steps m' = schedule_steps m + 1))"
  using steps_terminal [OF assms] step_round_counts [OF assms] by blast

text \<open>
  The theorem on a 3 by 3 room whose only dirty cell is the agents' start \<open>(1, 1)\<close>: the
  first step sees 0 percent and runs a round (the agent cleans), the second sees 100
  percent and stops, and three further steps change nothing.
\<close>

theorem terminated_is_absorbing_witness:
  "returns (create 3 3 1 1 [4] rnd_zero) (\<lambda>m0.
     contar_celdas_limpias m0 = Inr 0 \<and>
     returns (step m0) (\<lambda>m1.
       running m1 \<and> schedule_steps m1 = 1 \<and> contar_celdas_limpias m1 = Inr 100 \<and>
       returns (steps 3 m1) (\<lambda>m2.
         \<not> running m2 \<and> schedule_steps m2 = 1 \<and> grid m2 = grid m1 \<and> sucia m2 = sucia m1 \<and>
         pos m2 = pos m1 \<and> movimientos m2 = movimientos m1)))"
proof -
  have ev: "returns (create 3 3 1 1 [4] rnd_zero) (\<lambda>m0.
     contar_celdas_limpias m0 = Inr 0 \<and> running m0 \<and> schedule_steps m0 = 0 \<and>
     returns (step m0) (\<lambda>m1. contar_celdas_limpias m1 = Inr 100))"
    by code_simp
  then obtain m0 where m0: "create 3 3 1 1 [4] rnd_zero = Inr m0"
    and c0: "contar_celdas_limpias m0 = Inr 0" and r0: "running m0" "schedule_steps m0 = 0"
    and s0: "returns (step m0) (\<lambda>m1. contar_celdas_limpias m1 = Inr 100)"
    by (auto elim!: returnsE)
  from s0 obtain m1 where m1: "step m0 = Inr m1" and c1: "contar_celdas_limpias m1 = Inr 100"
    by (auto elim!: returnsE)
  have a: "running m1 \<and> schedule_steps m1 = 1"
    using terminated_is_absorbing [OF c0, of 0] m1 r0 by simp
  obtain m2 where "steps 3 m1 = Inr m2" "\<not> running m2" "grid m2 = grid m1" "sucia m2 = sucia m1"
    "pos m2 = pos m1" "movimientos m2 = movimientos m1" "schedule_steps m2 = schedule_steps m1"
    using terminated_is_absorbing [OF c1, of 2] by (auto simp: numeral_3_eq_3)
  then show ?thesis using m0 c0 m1 c1 a by simp
qed

section \<open>Claims about the state over time\<close>

text \<open>
  C6: in a simulation that was constructed and has run some steps, the clean fraction
  after any further steps is at least the clean fraction before them; a cell that is
  dirty afterwards was dirty before (dirt never comes back); and \<^verbatim>\<open>limpiar\<close> leaves the
  cell clean, is idempotent, and changes nothing on a cell that is already clean.
  (The fraction is a Python float, modelled as an exact rational.)
\<close>

theorem clean_fraction_monotone:
  assumes "create rows cols agentes sucias ps rnd = Inr m0"
    and "steps n m0 = Inr m" and "steps k m = Inr m'"
    and "contar_celdas_limpias m = Inr p" and "contar_celdas_limpias m' = Inr p'"
  shows "p \<le> p' \<and> (\<forall>c. sucia m' c \<longrightarrow> sucia m c) \<and>
         (\<forall>c. \<not> sucia (limpiar c m) c \<and> limpiar c (limpiar c m) = limpiar c m \<and>
              (\<not> sucia m c \<longrightarrow> limpiar c m = m))"
proof -
  have e0: "evolves m0 m" using assms(2) by (rule steps_evolves)
  have e: "evolves m m'" using assms(3) by (rule steps_evolves)
  have "0 \<le> sucias" "celdas_sucias m0 = sucias"
    using create_InrD(1,4) [OF assms(1)] by simp_all
  then have d: "0 \<le> celdas_sucias m" using evolvesD(1) [OF e0] by simp
  have d': "celdas_sucias m' = celdas_sucias m" by (rule evolvesD(1) [OF e])
  have nz: "celdas_sucias m \<noteq> 0"
    using assms(4) by (auto simp: contar_celdas_limpias_def split: if_splits)
  have p: "p = of_nat (celdas_limpias m) / of_int (celdas_sucias m) * 100"
    using assms(4) nz by (simp add: contar_celdas_limpias_def)
  have p': "p' = of_nat (celdas_limpias m') / of_int (celdas_sucias m) * 100"
    using assms(5) nz d' by (simp add: contar_celdas_limpias_def)
  have "celdas_limpias m \<le> celdas_limpias m'" using e by (rule celdas_limpias_mono)
  then have "(of_nat (celdas_limpias m) :: rat) \<le> of_nat (celdas_limpias m')" by simp
  moreover have "(0::rat) < of_int (celdas_sucias m)" using d nz by simp
  ultimately have le: "p \<le> p'"
    unfolding p p' by (simp add: divide_right_mono)
  have mono: "\<forall>c. sucia m' c \<longrightarrow> sucia m c" using evolvesD(7) [OF e] by blast
  have idem: "\<not> sucia (limpiar c m) c \<and> limpiar c (limpiar c m) = limpiar c m \<and>
              (\<not> sucia m c \<longrightarrow> limpiar c m = m)" for c
  proof -
    have "\<not> sucia m c \<Longrightarrow> (sucia m)(c := False) = sucia m" by (rule ext) simp
    then show ?thesis by (auto simp: limpiar_def)
  qed
  show ?thesis using le mono idem by blast
qed

text \<open>The theorem on the 3 by 3 room whose dirty cell is the start: 0 percent before the
  first step, 100 percent after it.\<close>

theorem clean_fraction_monotone_witness:
  "returns (create 3 3 1 1 [4] rnd_zero) (\<lambda>m0.
     returns (steps 0 m0) (\<lambda>m. returns (steps 1 m) (\<lambda>m'.
       contar_celdas_limpias m = Inr 0 \<and> contar_celdas_limpias m' = Inr 100 \<and>
       (0::rat) \<le> 100 \<and> sucia m 4 \<and> \<not> sucia m' 4)))"
proof -
  have ev: "returns (create 3 3 1 1 [4] rnd_zero) (\<lambda>m0.
     returns (steps 0 m0) (\<lambda>m. returns (steps 1 m) (\<lambda>m'.
       contar_celdas_limpias m = Inr 0 \<and> contar_celdas_limpias m' = Inr 100 \<and>
       sucia m 4 \<and> \<not> sucia m' 4)))"
    by code_simp
  then obtain m0 m m' where r: "create 3 3 1 1 [4] rnd_zero = Inr m0" "steps 0 m0 = Inr m"
    "steps 1 m = Inr m'" "contar_celdas_limpias m = Inr 0" "contar_celdas_limpias m' = Inr 100"
    "sucia m 4" "\<not> sucia m' 4"
    by (elim returnsE conjE)
  have "(0::rat) \<le> 100" using clean_fraction_monotone [OF r(1-5)] by simp
  then show ?thesis using r by simp
qed

text \<open>
  C9: in every state reached from a construction by \<open>n\<close> steps, every scheduled cleaner
  stands inside the grid, on the cell that holds it, and a step of that cleaner either
  leaves it there or takes it to a coordinate of the clipped neighbourhood of its
  position. The steps themselves do not raise when the dirty count is not 0, so the
  states the invariant speaks of exist.
\<close>

theorem positions_in_bounds:
  assumes "create rows cols agentes sucias ps rnd = Inr m0"
  shows "(\<forall>m. steps n m0 = Inr m \<longrightarrow>
            (\<forall>i\<in>set (schedule_agents m).
               \<not> out_of_bounds (grid m) (pos m i) \<and>
               fst (pos m i) < nat rows \<and> snd (pos m i) < nat cols \<and>
               Limpiador i \<in> set (contents (grid m) (pos m i)) \<and>
               (\<forall>m'. Limpiador_step i m = Inr m' \<longrightarrow>
                  pos m' i = pos m i \<or> pos m' i \<in> set (get_neighborhood (grid m) (pos m i))))) \<and>
         (sucias \<noteq> 0 \<longrightarrow> (\<exists>m. steps n m0 = Inr m))"
proof -
  have w0: "well_placed m0" by (rule create_well_placed [OF assms])
  have d0: "celdas_sucias m0 = sucias" "width (grid m0) = nat rows" "height (grid m0) = nat cols"
    using create_InrD(4,11,12) [OF assms] by simp_all
  have a: "\<not> out_of_bounds (grid m) (pos m i) \<and>
               fst (pos m i) < nat rows \<and> snd (pos m i) < nat cols \<and>
               Limpiador i \<in> set (contents (grid m) (pos m i)) \<and>
               (\<forall>m'. Limpiador_step i m = Inr m' \<longrightarrow>
                  pos m' i = pos m i \<or> pos m' i \<in> set (get_neighborhood (grid m) (pos m i)))"
    if run: "steps n m0 = Inr m" and i: "i \<in> set (schedule_agents m)" for m i
  proof -
    have e: "evolves m0 m" using run by (rule steps_evolves)
    then have "well_placed m" using w0 by (rule well_placed_evolves)
    then have pl: "placed m i" using i by (simp add: well_placed_def list_all_iff)
    have wh: "width (grid m) = nat rows" "height (grid m) = nat cols"
      using evolvesD(4,5) [OF e] d0 by simp_all
    have mv: "pos m' i = pos m i \<or> pos m' i \<in> set (get_neighborhood (grid m) (pos m i))"
      if "Limpiador_step i m = Inr m'" for m'
      using that
    proof (cases rule: Limpiador_step_cases)
      case (mueve nueva)
      have "nueva \<in> set (valid_moves m i)"
        unfolding mueve(3) by (rule nueva_facts(1) [OF mueve(2)])
      then show ?thesis by (simp add: mueve(5) set_valid_moves)
    qed simp_all
    show ?thesis using pl wh mv by (auto simp: placed_def out_of_bounds_def)
  qed
  have b: "\<exists>m. steps n m0 = Inr m" if "sucias \<noteq> 0"
    using steps_total [OF w0] that d0 by simp
  show ?thesis using a b by blast
qed

text \<open>The theorem after two rounds of two agents in a 3 by 3 room.\<close>

theorem positions_in_bounds_witness:
  "returns (create 3 3 2 1 [8] rnd_zero) (\<lambda>m0. returns (steps 2 m0) (\<lambda>m.
     schedule_agents m = [0, 1] \<and> pos m 0 = (1, 0) \<and> pos m 1 = (0, 0) \<and>
     \<not> out_of_bounds (grid m) (pos m 0) \<and> \<not> out_of_bounds (grid m) (pos m 1)))"
proof -
  have ev: "returns (create 3 3 2 1 [8] rnd_zero) (\<lambda>m0. returns (steps 2 m0) (\<lambda>m.
     schedule_agents m = [0, 1] \<and> pos m 0 = (1, 0) \<and> pos m 1 = (0, 0)))"
    by code_simp
  then obtain m0 m where r: "create 3 3 2 1 [8] rnd_zero = Inr m0" "steps 2 m0 = Inr m"
    "schedule_agents m = [0, 1]" "pos m 0 = (1, 0)" "pos m 1 = (0, 0)"
    by (elim returnsE conjE)
  have "\<forall>i\<in>set (schedule_agents m). \<not> out_of_bounds (grid m) (pos m i)"
    using positions_in_bounds [OF r(1), of 2] r(2) by blast
  then show ?thesis using r by simp
qed

section \<open>Claims about the constructed state\<close>

lemma cell_index:
  fixes x y C :: nat
  assumes "y < C"
  shows "(x * C + y) div C = x" and "(x * C + y) mod C = y"
proof -
  have "C \<noteq> 0" using assms by auto
  then show "(x * C + y) div C = x" and "(x * C + y) mod C = y"
    using assms by simp_all
qed

lemma cell_bound:
  fixes x y R C :: nat
  assumes "x < R" and "y < C"
  shows "x * C + y < R * C"
proof -
  have "x * C + y < x * C + C" using assms(2) by simp
  also have "\<dots> = Suc x * C" by simp
  also have "\<dots> \<le> R * C" using assms(1) by (intro mult_le_mono1) simp
  finally show ?thesis .
qed

lemma cell_coords:
  fixes k R C :: nat
  assumes "k < R * C"
  shows "k div C < R" and "k mod C < C" and "(k div C) * C + k mod C = k"
proof -
  have C: "0 < C" using assms by (cases C) auto
  show "k div C < R" using assms C by (simp add: less_mult_imp_div_less)
  show "k mod C < C" using C by simp
  show "(k div C) * C + k mod C = k" by simp
qed

lemma dirty_positions_facts:
  fixes R C :: nat and ps :: "nat list"
  defines "f \<equiv> (\<lambda>k. (k div C, k mod C))"
  defines "dp \<equiv> rev (map f (filter (\<lambda>k. k \<in> set ps) [0..<R * C]))"
  assumes "distinct ps" and "set ps \<subseteq> {..<R * C}"
  shows "distinct dp" and "length dp = length ps"
    and "\<And>x y. x < R \<Longrightarrow> y < C \<Longrightarrow> (x, y) \<in> set dp \<longleftrightarrow> x * C + y \<in> set ps"
    and "\<And>p. p \<in> set dp \<Longrightarrow> fst p < R \<and> snd p < C"
proof -
  have inj: "inj_on f {..<R * C}"
  proof (rule inj_onI)
    fix a b assume "a \<in> {..<R * C}" "b \<in> {..<R * C}" "f a = f b"
    then have "a div C = b div C" "a mod C = b mod C" by (simp_all add: f_def)
    then have "(a div C) * C + a mod C = (b div C) * C + b mod C" by simp
    then show "a = b" by simp
  qed
  have sub: "set (filter (\<lambda>k. k \<in> set ps) [0..<R * C]) \<subseteq> {..<R * C}" by auto
  show "distinct dp"
    unfolding dp_def using inj sub by (simp add: distinct_map inj_on_subset)
  have "length dp = length (filter (\<lambda>k. k \<in> set ps) [0..<R * C])" by (simp add: dp_def)
  also have "\<dots> = card ({k. k \<in> set ps} \<inter> set [0..<R * C])"
    by (rule distinct_length_filter) simp
  also have "{k. k \<in> set ps} \<inter> set [0..<R * C] = set ps" using assms(4) by auto
  also have "card (set ps) = length ps" using assms(3) by (rule distinct_card)
  finally show "length dp = length ps" .
  show "(x, y) \<in> set dp \<longleftrightarrow> x * C + y \<in> set ps" if "x < R" "y < C" for x y
  proof
    assume "(x, y) \<in> set dp"
    then obtain k where k: "k \<in> set ps" "k < R * C" "f k = (x, y)"
      by (auto simp: dp_def)
    then have "k div C = x" "k mod C = y" by (simp_all add: f_def)
    then have "x * C + y = k" by auto
    then show "x * C + y \<in> set ps" using k(1) by simp
  next
    assume in_ps: "x * C + y \<in> set ps"
    have "f (x * C + y) = (x, y)" using that(2) by (simp add: f_def cell_index)
    moreover have "x * C + y < R * C" using that by (rule cell_bound)
    ultimately show "(x, y) \<in> set dp" using in_ps by (force simp: dp_def)
  qed
  show "fst p < R \<and> snd p < C" if "p \<in> set dp" for p
  proof -
    from that obtain k where "k < R * C" "p = f k" by (auto simp: dp_def)
    then show ?thesis using cell_coords(1,2) [of k R C] by (simp add: f_def)
  qed
qed

text \<open>
  C8: for positive dimensions and an outcome of the sample as the library promises it
  (\<open>dirty_count\<close> distinct identifiers below \<open>rows \<times> columns\<close>), right after a construction
  that returned: \<open>dirty_positions\<close> holds exactly \<open>dirty_count\<close> distinct coordinates, all
  inside the grid, and no number of steps changes it; every coordinate of the grid holds
  exactly one cell, which is dirty iff the coordinate is in \<open>dirty_positions\<close>; the clean
  fraction is 0 when \<open>dirty_count > 0\<close>; the scheduled agents are \<open>0, \<dots>, agent_count - 1\<close>,
  each with a movement counter of 0 and standing on \<open>(1, 1)\<close>.
\<close>

theorem construction_state:
  assumes "0 < rows" and "0 < cols" and "sample_outcome (rows * cols) sucias ps"
    and "create rows cols agentes sucias ps rnd = Inr m"
  shows "distinct (dirty_positions m) \<and> int (length (dirty_positions m)) = sucias \<and>
     (\<forall>p\<in>set (dirty_positions m). \<not> out_of_bounds (grid m) p) \<and>
     (\<forall>n m'. steps n m = Inr m' \<longrightarrow> dirty_positions m' = dirty_positions m) \<and>
     (\<forall>x y. x < nat rows \<longrightarrow> y < nat cols \<longrightarrow>
        (\<exists>c. filter (\<lambda>a. \<not> es_limpiador a) (contents (grid m) (x, y)) = [Celda c] \<and>
             (sucia m c \<longleftrightarrow> (x, y) \<in> set (dirty_positions m)))) \<and>
     (0 < sucias \<longrightarrow> contar_celdas_limpias m = Inr 0) \<and>
     schedule_agents m = [0..<nat agentes] \<and>
     (\<forall>i\<in>set (schedule_agents m). movimientos m i = 0 \<and> pos m i = (1, 1))"
proof -
  define R C where "R = nat rows" and "C = nat cols"
  note d = create_InrD [OF assms(4), folded R_def C_def]
  have dps: "distinct ps" and len: "int (length ps) = sucias"
    and rng: "list_all (\<lambda>u. int u < rows * cols) ps"
    using assms(3) by (simp_all add: sample_outcome_def)
  have RC: "int (R * C) = rows * cols"
    using assms(1,2) by (simp add: R_def C_def)
  have sub: "set ps \<subseteq> {..<R * C}"
  proof
    fix u assume "u \<in> set ps"
    then have "int u < rows * cols" using rng by (simp add: list_all_iff)
    then have "int u < int (R * C)" using RC by simp
    then have "u < R * C" by (simp only: of_nat_less_iff)
    then show "u \<in> {..<R * C}" by simp
  qed
  note f = dirty_positions_facts [OF dps sub, folded d(16)]
  have cells: "filter (\<lambda>a. \<not> es_limpiador a) (contents (grid m) (x, y)) = [Celda (x * C + y)]"
    if "x < R" "y < C" for x y
  proof -
    have "filter (\<lambda>a. \<not> es_limpiador a) (map Limpiador js) = []" for js
      by (induction js) auto
    then show ?thesis using d(14) that by simp
  qed
  have su: "sucia m (x * C + y) \<longleftrightarrow> (x, y) \<in> set (dirty_positions m)"
    if "x < R" "y < C" for x y
    using d(15) f(3) [OF that] cell_bound [OF that] by simp
  have c1: "distinct (dirty_positions m)" by (rule f(1))
  have c2: "int (length (dirty_positions m)) = sucias" using f(2) len by simp
  have c3: "\<forall>p\<in>set (dirty_positions m). \<not> out_of_bounds (grid m) p"
  proof
    fix p assume "p \<in> set (dirty_positions m)"
    then have "fst p < R \<and> snd p < C" by (rule f(4))
    then show "\<not> out_of_bounds (grid m) p" using d(11,12) by (simp add: out_of_bounds_def)
  qed
  have c4: "\<forall>n m'. steps n m = Inr m' \<longrightarrow> dirty_positions m' = dirty_positions m"
    using steps_evolves evolvesD(2) by blast
  have c5: "\<forall>x y. x < nat rows \<longrightarrow> y < nat cols \<longrightarrow>
        (\<exists>c. filter (\<lambda>a. \<not> es_limpiador a) (contents (grid m) (x, y)) = [Celda c] \<and>
             (sucia m c \<longleftrightarrow> (x, y) \<in> set (dirty_positions m)))"
    using cells su unfolding R_def C_def by blast
  have c6: "contar_celdas_limpias m = Inr 0" if "0 < sucias"
  proof -
    have "\<not> es_celda_limpia m a"
      if "a \<in> set (concat (map (\<lambda>p. filter (\<lambda>a. \<not> es_limpiador a) (contents (grid m) p))
                        (dirty_positions m)))" for a
    proof -
      from that obtain p where p: "p \<in> set (dirty_positions m)"
        and a: "a \<in> set (filter (\<lambda>a. \<not> es_limpiador a) (contents (grid m) p))"
        by auto
      obtain x y where xy: "p = (x, y)" by (cases p)
      have b: "x < R" "y < C" using f(4) [OF p] xy by simp_all
      have "a = Celda (x * C + y)" using a cells [OF b] xy by simp
      moreover have "sucia m (x * C + y)" using su [OF b] p xy by simp
      ultimately show ?thesis by simp
    qed
    then have "filter (es_celda_limpia m)
        (concat (map (\<lambda>p. filter (\<lambda>a. \<not> es_limpiador a) (contents (grid m) p))
                        (dirty_positions m))) = []"
      by (simp only: filter_empty_conv) blast
    then have "celdas_limpias m = 0" by (simp only: celdas_limpias_celdas list.size)
    then show ?thesis using that d(4) by (simp add: contar_celdas_limpias_def)
  qed
  have c7: "schedule_agents m = [0..<nat agentes]" by (rule d(10))
  have c8: "\<forall>i\<in>set (schedule_agents m). movimientos m i = 0 \<and> pos m i = (1, 1)"
    using d(13) by (simp add: c7)
  show ?thesis using c1 c2 c3 c4 c5 c6 c7 c8 by blast
qed

text \<open>The theorem on a 2 by 3 room with two agents whose sample drew the identifiers
  5 and 0, the cells \<open>(1, 2)\<close> and \<open>(0, 0)\<close>.\<close>

theorem construction_state_witness:
  "(0::int) < 2 \<and> (0::int) < 3 \<and> sample_outcome (2 * 3) 2 [5, 0] \<and>
   returns (create 2 3 2 2 [5, 0] rnd_zero) (\<lambda>m.
     dirty_positions m = [(1, 2), (0, 0)] \<and> contar_celdas_limpias m = Inr 0 \<and>
     contents (grid m) (1, 2) = [Celda 5] \<and> sucia m 5 \<and> sucia m 0 \<and> \<not> sucia m 4 \<and>
     schedule_agents m = [0, 1] \<and> pos m 0 = (1, 1) \<and> pos m 1 = (1, 1) \<and>
     movimientos m 0 = 0 \<and> movimientos m 1 = 0 \<and>
     returns (steps 3 m) (\<lambda>m'. dirty_positions m' = [(1, 2), (0, 0)]))"
proof -
  have s: "sample_outcome (2 * 3) 2 [5, 0]" by (simp add: sample_outcome_def)
  have ev: "returns (create 2 3 2 2 [5, 0] rnd_zero) (\<lambda>m.
     dirty_positions m = [(1, 2), (0, 0)] \<and> contents (grid m) (1, 2) = [Celda 5] \<and>
     sucia m 5 \<and> sucia m 0 \<and> \<not> sucia m 4 \<and> returns (steps 3 m) (\<lambda>m'. True))"
    by code_simp
  then obtain m m' where r: "create 2 3 2 2 [5, 0] rnd_zero = Inr m"
    "dirty_positions m = [(1, 2), (0, 0)]" "contents (grid m) (1, 2) = [Celda 5]"
    "sucia m 5" "sucia m 0" "\<not> sucia m 4" "steps 3 m = Inr m'"
    by (elim returnsE conjE)
  have t: "distinct (dirty_positions m) \<and> int (length (dirty_positions m)) = 2 \<and>
     (\<forall>p\<in>set (dirty_positions m). \<not> out_of_bounds (grid m) p) \<and>
     (\<forall>n m'. steps n m = Inr m' \<longrightarrow> dirty_positions m' = dirty_positions m) \<and>
     (\<forall>x y. x < nat 2 \<longrightarrow> y < nat 3 \<longrightarrow>
        (\<exists>c. filter (\<lambda>a. \<not> es_limpiador a) (contents (grid m) (x, y)) = [Celda c] \<and>
             (sucia m c \<longleftrightarrow> (x, y) \<in> set (dirty_positions m)))) \<and>
     ((0::int) < 2 \<longrightarrow> contar_celdas_limpias m = Inr 0) \<and>
     schedule_agents m = [0..<nat 2] \<and>
     (\<forall>i\<in>set (schedule_agents m). movimientos m i = 0 \<and> pos m i = (1, 1))"
    by (rule construction_state [OF _ _ s r(1)]) simp_all
  have "contar_celdas_limpias m = Inr 0" using t by simp
  moreover have "schedule_agents m = [0, 1]"
    using t by (simp add: upt_conv_Cons)
  moreover from this have "pos m 0 = (1, 1) \<and> pos m 1 = (1, 1) \<and>
     movimientos m 0 = 0 \<and> movimientos m 1 = 0"
    using t by simp
  moreover have "dirty_positions m' = dirty_positions m" using t r(7) by blast
  ultimately show ?thesis using s r by simp
qed

section \<open>Claims about the agents' decisions\<close>

lemma no_limpiador_iff:
  "\<not> list_ex es_limpiador xs \<longleftrightarrow> (\<forall>j. Limpiador j \<notin> set xs)"
proof
  assume "\<not> list_ex es_limpiador xs"
  then show "\<forall>j. Limpiador j \<notin> set xs"
    unfolding list_ex_iff using es_limpiador_simps(1) by blast
next
  assume none: "\<forall>j. Limpiador j \<notin> set xs"
  have "\<not> es_limpiador a" if "a \<in> set xs" for a
  proof (cases a)
    case (Celda c)
    then show ?thesis by simp
  next
    case (Limpiador j)
    then show ?thesis using that none by blast
  qed
  then show "\<not> list_ex es_limpiador xs" unfolding list_ex_iff by blast
qed

lemma set_valid_moves_moore:
  "set (valid_moves m i) = {q. moore_free m i q}"
  by (auto simp: set_valid_moves set_get_neighborhood moore_free_def no_limpiador_iff)

lemma count_list_distinct:
  "distinct xs \<Longrightarrow> count_list xs q = (if q \<in> set xs then 1 else 0)"
  by (induction xs) auto

lemma choice_probability_distinct:
  assumes "distinct xs"
  shows "choice_probability xs q = (if q \<in> set xs then 1 / of_nat (card (set xs)) else 0)"
  using assms by (simp add: choice_probability_def count_list_distinct distinct_card)

lemma list_ex_es_celda_sucia:
  "list_ex (es_celda_sucia m) xs \<longleftrightarrow> (\<exists>c. Celda c \<in> set xs \<and> sucia m c)"
proof
  assume "list_ex (es_celda_sucia m) xs"
  then obtain a where a: "a \<in> set xs" "es_celda_sucia m a" by (auto simp: list_ex_iff)
  show "\<exists>c. Celda c \<in> set xs \<and> sucia m c"
  proof (cases a)
    case (Celda c)
    then show ?thesis using a by auto
  next
    case (Limpiador j)
    then show ?thesis using a by simp
  qed
next
  assume "\<exists>c. Celda c \<in> set xs \<and> sucia m c"
  then obtain c where "Celda c \<in> set xs" "es_celda_sucia m (Celda c)" by auto
  then show "list_ex (es_celda_sucia m) xs" unfolding list_ex_iff by blast
qed

text \<open>
  C7: the decision rule of one cleaner's step, for a cleaner that stands on the grid.
  The conditions are written with the grid's contents, not with the program's tests.
  \<^item> If some occupant of its cell is a cell with \<^verbatim>\<open>sucia\<close> true, the step cleans every
    cell at that coordinate and changes nothing else (no move, no counter increment, no
    random number drawn).
  \<^item> The candidates \<open>valid_moves\<close> are exactly the coordinates of the Moore neighbourhood,
    inside the grid and other than the cleaner's own, on which no cleaner stands
    (\<open>moore_free\<close>), each listed once.
  \<^item> The choice among them is uniform: \<^verbatim>\<open>random.choice\<close> returns each candidate with
    probability one over the number of candidates, and anything else with probability 0
    (given the library's uniform \<^verbatim>\<open>randbelow\<close>).
  \<^item> Otherwise, with no candidate the step changes nothing.
  \<^item> Otherwise the cleaner moves to the candidate at the index drawn, which is a valid
    index, its counter grows by exactly 1, no other cleaner's position or counter and no
    cell's dirt changes, and on the grid it leaves its old cell and joins the new one.
\<close>

theorem cleaner_decision_rule:
  assumes "placed m i"
  shows "((\<exists>c. Celda c \<in> set (contents (grid m) (pos m i)) \<and> sucia m c) \<longrightarrow>
            Limpiador_step i m =
              Inr (m\<lparr>sucia := (\<lambda>c. sucia m c \<and> Celda c \<notin> set (contents (grid m) (pos m i)))\<rparr>)) \<and>
         set (valid_moves m i) = {q. moore_free m i q} \<and> distinct (valid_moves m i) \<and>
         (\<forall>q. choice_probability (valid_moves m i) q =
                (if moore_free m i q then 1 / of_nat (card {q. moore_free m i q}) else 0)) \<and>
         (\<not> (\<exists>c. Celda c \<in> set (contents (grid m) (pos m i)) \<and> sucia m c) \<longrightarrow>
            \<not> (\<exists>q. moore_free m i q) \<longrightarrow> Limpiador_step i m = Inr m) \<and>
         (\<not> (\<exists>c. Celda c \<in> set (contents (grid m) (pos m i)) \<and> sucia m c) \<longrightarrow>
            (\<exists>q. moore_free m i q) \<longrightarrow>
            (\<exists>m'. Limpiador_step i m = Inr m' \<and>
                pos m' i = valid_moves m i ! (random m (drawn m) mod length (valid_moves m i)) \<and>
                random m (drawn m) mod length (valid_moves m i) < length (valid_moves m i) \<and>
                moore_free m i (pos m' i) \<and>
                movimientos m' i = movimientos m i + 1 \<and>
                (\<forall>j. j \<noteq> i \<longrightarrow> pos m' j = pos m j \<and> movimientos m' j = movimientos m j) \<and>
                sucia m' = sucia m \<and> drawn m' = drawn m + 1 \<and>
                contents (grid m') =
                  ((contents (grid m))(pos m i := remove1 (Limpiador i) (contents (grid m) (pos m i))))
                    (pos m' i := contents (grid m) (pos m' i) @ [Limpiador i])))"
proof -
  let ?dirty = "list_ex (es_celda_sucia m) (contents (grid m) (pos m i))"
  let ?sucio = "\<exists>c. Celda c \<in> set (contents (grid m) (pos m i)) \<and> sucia m c"
  have here: "Limpiador i \<in> set (contents (grid m) (pos m i))"
    using assms by (simp add: placed_def)
  have a: "?dirty \<longleftrightarrow> ?sucio" by (rule list_ex_es_celda_sucia)
  have b: "?sucio \<longrightarrow> Limpiador_step i m =
              Inr (m\<lparr>sucia := (\<lambda>c. sucia m c \<and> Celda c \<notin> set (contents (grid m) (pos m i)))\<rparr>)"
    using Limpiador_step_limpia a by blast
  have c: "set (valid_moves m i) = {q. moore_free m i q}" by (rule set_valid_moves_moore)
  have d: "distinct (valid_moves m i)" by (rule distinct_valid_moves)
  have p: "\<forall>q. choice_probability (valid_moves m i) q =
                (if moore_free m i q then 1 / of_nat (card {q. moore_free m i q}) else 0)"
    using choice_probability_distinct [OF d] unfolding c by simp
  have none: "valid_moves m i = [] \<longleftrightarrow> \<not> (\<exists>q. moore_free m i q)"
  proof -
    have "valid_moves m i = [] \<longleftrightarrow> set (valid_moves m i) = {}" by simp
    then show ?thesis unfolding c by blast
  qed
  have e: "\<not> ?sucio \<longrightarrow> \<not> (\<exists>q. moore_free m i q) \<longrightarrow> Limpiador_step i m = Inr m"
  proof (intro impI)
    assume "\<not> ?sucio" and "\<not> (\<exists>q. moore_free m i q)"
    then have "\<not> ?dirty" and "valid_moves m i = []" using a none by blast+
    then show "Limpiador_step i m = Inr m"
      using Limpiador_step_mover [of m i] mover_stay [of m i] by simp
  qed
  have f: "\<exists>m'. Limpiador_step i m = Inr m' \<and>
                pos m' i = valid_moves m i ! (random m (drawn m) mod length (valid_moves m i)) \<and>
                random m (drawn m) mod length (valid_moves m i) < length (valid_moves m i) \<and>
                moore_free m i (pos m' i) \<and>
                movimientos m' i = movimientos m i + 1 \<and>
                (\<forall>j. j \<noteq> i \<longrightarrow> pos m' j = pos m j \<and> movimientos m' j = movimientos m j) \<and>
                sucia m' = sucia m \<and> drawn m' = drawn m + 1 \<and>
                contents (grid m') =
                  ((contents (grid m))(pos m i := remove1 (Limpiador i) (contents (grid m) (pos m i))))
                    (pos m' i := contents (grid m) (pos m' i) @ [Limpiador i])"
    if ns: "\<not> ?sucio" and some: "\<exists>q. moore_free m i q"
  proof -
    have nd: "\<not> ?dirty" using ns a by blast
    have ne: "valid_moves m i \<noteq> []" using some none by blast
    define nueva where "nueva = valid_moves m i ! choice_index m (length (valid_moves m i))"
    define m' where "m' = m\<lparr>drawn := drawn m + 1,
            grid := (grid m)\<lparr>contents :=
               ((contents (grid m))(pos m i := remove1 (Limpiador i) (contents (grid m) (pos m i))))
                 (nueva := contents (grid m) nueva @ [Limpiador i])\<rparr>,
            pos := (pos m)(i := nueva),
            movimientos := (movimientos m)(i := movimientos m i + 1)\<rparr>"
    have "mover i m = Inr m'"
      unfolding m'_def nueva_def by (rule mover_move [OF ne here])
    then have s: "Limpiador_step i m = Inr m'" using Limpiador_step_mover [OF nd] by simp
    have "nueva \<in> set (valid_moves m i)"
      unfolding nueva_def by (rule nueva_facts(1) [OF ne])
    then have mf: "moore_free m i nueva" using c by simp
    have pn: "pos m' i = nueva" by (simp add: m'_def)
    have lt: "random m (drawn m) mod length (valid_moves m i) < length (valid_moves m i)"
      using ne by simp
    show ?thesis
      using s mf lt unfolding pn
      by (intro exI [of _ m']) (simp add: m'_def nueva_def choice_index_def)
  qed
  show ?thesis using b c d p e f by blast
qed

text \<open>
  The theorem in the first round of four cleaners in a 2 by 2 room whose dirty cell is
  \<open>(0, 0)\<close>, every choice taking the first candidate. Cleaner 0 has moved to \<open>(0, 0)\<close>.
  Cleaner 1 is on a clean cell: \<open>(0, 0)\<close> holds cleaner 0 and is not a candidate, the
  candidates are \<open>(0, 1)\<close> and \<open>(1, 0)\<close>, each with probability one half, and it moves to
  \<open>(0, 1)\<close> with its counter at 1. Cleaner 2 takes \<open>(1, 0)\<close>. Cleaner 3 then has no
  candidate and stays, its counter at 0. Cleaner 0, now on the dirty cell, cleans it and
  neither moves nor counts.
\<close>

theorem cleaner_decision_rule_witness:
  "returns (create 2 2 4 1 [0] rnd_zero) (\<lambda>m. returns (activate [0] m) (\<lambda>m1.
     placed m1 1 \<and> Limpiador 0 \<in> set (contents (grid m1) (0, 0)) \<and> \<not> moore_free m1 1 (0, 0) \<and>
     valid_moves m1 1 = [(0, 1), (1, 0)] \<and>
     choice_probability (valid_moves m1 1) (0, 1) = 1 / 2 \<and>
     returns (Limpiador_step 1 m1) (\<lambda>m2.
       pos m2 1 = (0, 1) \<and> movimientos m2 1 = 1 \<and>
       returns (Limpiador_step 2 m2) (\<lambda>m3.
         pos m3 2 = (1, 0) \<and> placed m3 3 \<and> \<not> (\<exists>q. moore_free m3 3 q) \<and>
         returns (Limpiador_step 3 m3) (\<lambda>m4.
           pos m4 3 = (1, 1) \<and> movimientos m4 3 = 0 \<and>
           placed m4 0 \<and> pos m4 0 = (0, 0) \<and> sucia m4 0 \<and> movimientos m4 0 = 1 \<and>
           returns (Limpiador_step 0 m4) (\<lambda>m5.
             \<not> sucia m5 0 \<and> pos m5 0 = (0, 0) \<and> movimientos m5 0 = 1))))))"
proof -
  have ev: "returns (create 2 2 4 1 [0] rnd_zero) (\<lambda>m. returns (activate [0] m) (\<lambda>m1.
     placed m1 1 \<and> Limpiador 0 \<in> set (contents (grid m1) (0, 0)) \<and>
     valid_moves m1 1 = [(0, 1), (1, 0)] \<and>
     \<not> list_ex (es_celda_sucia m1) (contents (grid m1) (pos m1 1)) \<and>
     returns (Limpiador_step 1 m1) (\<lambda>m2.
       pos m2 1 = (0, 1) \<and> movimientos m2 1 = 1 \<and>
       returns (Limpiador_step 2 m2) (\<lambda>m3.
         pos m3 2 = (1, 0) \<and> placed m3 3 \<and> valid_moves m3 3 = [] \<and> pos m3 3 = (1, 1) \<and>
         movimientos m3 3 = 0 \<and> placed m3 0 \<and> pos m3 0 = (0, 0) \<and> sucia m3 0 \<and>
         movimientos m3 0 = 1 \<and> contents (grid m3) (0, 0) = [Celda 0, Limpiador 0] \<and>
         contents (grid m3) (1, 1) = [Celda 3, Limpiador 3] \<and> \<not> sucia m3 3))))"
    by code_simp
  then obtain m m1 m2 m3 where r: "create 2 2 4 1 [0] rnd_zero = Inr m"
    "activate [0] m = Inr m1" "placed m1 1" "Limpiador 0 \<in> set (contents (grid m1) (0, 0))"
    "valid_moves m1 1 = [(0, 1), (1, 0)]"
    "\<not> list_ex (es_celda_sucia m1) (contents (grid m1) (pos m1 1))"
    "Limpiador_step 1 m1 = Inr m2" "pos m2 1 = (0, 1)" "movimientos m2 1 = 1"
    "Limpiador_step 2 m2 = Inr m3" "pos m3 2 = (1, 0)" "placed m3 3" "valid_moves m3 3 = []"
    "pos m3 3 = (1, 1)" "movimientos m3 3 = 0" "placed m3 0" "pos m3 0 = (0, 0)" "sucia m3 0"
    "movimientos m3 0 = 1" "contents (grid m3) (0, 0) = [Celda 0, Limpiador 0]"
    "contents (grid m3) (1, 1) = [Celda 3, Limpiador 3]" "\<not> sucia m3 3"
    by (elim returnsE conjE)
  note t1 = cleaner_decision_rule [OF r(3)]
  have a1: "\<not> moore_free m1 1 (0, 0)"
    using t1 r(5) by auto
  have a2: "choice_probability (valid_moves m1 1) (0, 1) = 1 / 2"
    unfolding r(5) by (simp add: choice_probability_def)
  note t3 = cleaner_decision_rule [OF r(12)]
  have b1: "\<not> (\<exists>q. moore_free m3 3 q)" using t3 r(13) by auto
  have b2: "\<not> (\<exists>c. Celda c \<in> set (contents (grid m3) (pos m3 3)) \<and> sucia m3 c)"
    unfolding r(14) r(21) using r(22) by simp
  have s3: "Limpiador_step 3 m3 = Inr m3" using t3 b1 b2 by blast
  note t4 = cleaner_decision_rule [OF r(16)]
  have "\<exists>c. Celda c \<in> set (contents (grid m3) (pos m3 0)) \<and> sucia m3 c"
    unfolding r(17) r(20) using r(18) by auto
  then have s4: "Limpiador_step 0 m3 =
      Inr (m3\<lparr>sucia := (\<lambda>c. sucia m3 c \<and> Celda c \<notin> set (contents (grid m3) (pos m3 0)))\<rparr>)"
    using t4 by blast
  show ?thesis
    using r a1 a2 b1 s3 s4 by simp
qed

lemma activate_snoc:
  assumes "activate before m = Inr mi"
  shows "activate (before @ [i]) m = Limpiador_step i mi"
  using assms by (simp add: activate_def for_each_append split: sum.splits)

text \<open>
  C5, as the code has it. Cleaner \<open>i\<close> is activated after the cleaners \<open>before\<close> of the
  same round, in the state \<open>mi\<close> they left. If its step moves it, the target held no
  cleaner in \<open>mi\<close>, the grid as it was at that moment: no placed cleaner stood there.
  For the first cleaner of a round (\<open>before = []\<close>) \<open>mi\<close> is the state before the round.
\<close>

theorem no_move_onto_cleaner:
  assumes "activate before m = Inr mi" and "Limpiador_step i mi = Inr mi'"
    and "pos mi' i \<noteq> pos mi i"
  shows "activate (before @ [i]) m = Inr mi' \<and>
         \<not> list_ex es_limpiador (contents (grid mi) (pos mi' i)) \<and>
         (\<forall>j. placed mi j \<longrightarrow> pos mi j \<noteq> pos mi' i) \<and>
         movimientos mi' i = movimientos mi i + 1"
proof -
  have a: "activate (before @ [i]) m = Inr mi'"
    using activate_snoc [OF assms(1)] assms(2) by simp
  from assms(2) have b: "\<not> list_ex es_limpiador (contents (grid mi) (pos mi' i)) \<and>
      movimientos mi' i = movimientos mi i + 1"
  proof (cases rule: Limpiador_step_cases)
    case limpia
    then show ?thesis using assms(3) by simp
  next
    case queda
    then show ?thesis using assms(3) by simp
  next
    case (mueve nueva)
    have "\<not> list_ex es_limpiador (contents (grid mi) nueva)"
      unfolding mueve(3) by (rule nueva_facts(4) [OF mueve(2)])
    then show ?thesis by (simp add: mueve(5))
  qed
  have c: "pos mi j \<noteq> pos mi' i" if "placed mi j" for j
  proof
    assume "pos mi j = pos mi' i"
    then have "Limpiador j \<in> set (contents (grid mi) (pos mi' i))"
      using that by (simp add: placed_def)
    then have "list_ex es_limpiador (contents (grid mi) (pos mi' i))"
      unfolding list_ex_iff using es_limpiador_simps(1) by blast
    then show False using b by simp
  qed
  show ?thesis using a b c by blast
qed

text \<open>The theorem in the first round of two cleaners in a 3 by 3 room: cleaner 0 has
  moved to \<open>(0, 0)\<close>, and cleaner 1 moves to \<open>(0, 1)\<close>, which is free.\<close>

theorem no_move_onto_cleaner_witness:
  "returns (create 3 3 2 1 [8] rnd_zero) (\<lambda>m. returns (activate [0] m) (\<lambda>mi.
     returns (Limpiador_step 1 mi) (\<lambda>mi'.
       pos mi 0 = (0, 0) \<and> pos mi 1 = (1, 1) \<and> pos mi' 1 = (0, 1) \<and> pos mi' 1 \<noteq> pos mi 1 \<and>
       \<not> list_ex es_limpiador (contents (grid mi) (pos mi' 1)) \<and>
       returns (activate ([0] @ [1]) m) (\<lambda>m'. pos m' 1 = (0, 1)))))"
proof -
  have ev: "returns (create 3 3 2 1 [8] rnd_zero) (\<lambda>m. returns (activate [0] m) (\<lambda>mi.
     returns (Limpiador_step 1 mi) (\<lambda>mi'.
       pos mi 0 = (0, 0) \<and> pos mi 1 = (1, 1) \<and> pos mi' 1 = (0, 1))))"
    by code_simp
  then obtain m mi mi' where r: "create 3 3 2 1 [8] rnd_zero = Inr m" "activate [0] m = Inr mi"
    "Limpiador_step 1 mi = Inr mi'" "pos mi 0 = (0, 0)" "pos mi 1 = (1, 1)" "pos mi' 1 = (0, 1)"
    by (elim returnsE conjE)
  have ne: "pos mi' 1 \<noteq> pos mi 1" using r(5,6) by simp
  show ?thesis
    using no_move_onto_cleaner [OF r(2,3) ne] r ne by simp
qed

text \<open>
  C5 as stated fails. Two cleaners in a 3 by 3 room, the dirty cell far away at \<open>(2, 2)\<close>,
  every choice taking the first candidate. Before the second round cleaner 0 stands on
  \<open>(0, 0)\<close> and cleaner 1 on \<open>(0, 1)\<close>. In the second round cleaner 0 leaves \<open>(0, 0)\<close>
  first, and cleaner 1 then completes a move onto \<open>(0, 0)\<close>, a coordinate that contained
  another cleaner before the round.
\<close>

theorem second_mover_counterexample:
  "returns (create 3 3 2 1 [8] rnd_zero) (\<lambda>m0. returns (step m0) (\<lambda>m1. returns (step m1) (\<lambda>m2.
     pos m1 0 = (0, 0) \<and> Limpiador 0 \<in> set (contents (grid m1) (0, 0)) \<and>
     pos m1 1 = (0, 1) \<and> pos m2 1 = (0, 0) \<and> movimientos m2 1 = movimientos m1 1 + 1)))"
  by code_simp

lemma two_phase_round_single:
  "two_phase_round [i] m = activate [i] m"
proof (cases "list_ex (es_celda_sucia m) (contents (grid m) (pos m i))")
  case True
  then show ?thesis
    by (simp add: two_phase_round_def two_phase_apply_def activate_def Limpiador_step_limpia
        fold_limpiar_si_sucia)
next
  case False
  then show ?thesis
    by (simp add: two_phase_round_def two_phase_apply_def activate_def Limpiador_step_mover
        mover_def Let_def choice_index_def split: sum.splits)
qed

lemma schedule_step_split:
  assumes "schedule_agents m = before @ i # rest"
    and "activate before m = Inr mi" and "Limpiador_step i mi = Inr mi'"
  shows "schedule_step m =
           (case activate rest mi' of
              Inl e \<Rightarrow> Inl e
            | Inr m' \<Rightarrow> Inr (m'\<lparr>schedule_steps := schedule_steps m' + 1\<rparr>))"
proof -
  have "activate (before @ i # rest) m = activate rest mi'"
    using assms(2,3) by (simp add: activate_def for_each_append)
  then show ?thesis by (simp add: schedule_step_def assms(1))
qed

text \<open>
  C1, as the code has it. A round is \<open>schedule_step\<close>, which \<^verbatim>\<open>step\<close> runs when the clean
  fraction is below 100; it activates the scheduled cleaners one after the other, in
  the scheduler's order, and in a constructed simulation that order is the order they
  were added in, \<open>0, \<dots>, agent_count - 1\<close>. Let cleaner \<open>i\<close> come after the cleaners
  \<open>before\<close> and ahead of the cleaners \<open>rest\<close>, and let \<open>mi\<close> be the state \<open>before\<close> left:
  \<^item> the round is cleaner \<open>i\<close>'s step on \<open>mi\<close>, then the steps of \<open>rest\<close> on its result, then
    the step counter's increment;
  \<^item> for the first cleaner \<open>mi\<close> is the state before the round;
  \<^item> cleaner \<open>i\<close>'s decision is computed from \<open>mi\<close>, not from the state before the round:
    it cleans iff its cell holds a dirty cell in \<open>mi\<close>, and otherwise stays when no
    neighbour is free of cleaners in \<open>mi\<close>, or moves to one that is;
  \<^item> a single cleaner's step is the spec's two-phase round of that cleaner.
\<close>

theorem round_is_sequential:
  assumes "schedule_agents m = before @ i # rest"
    and "activate before m = Inr mi" and "Limpiador_step i mi = Inr mi'"
  shows "schedule_step m =
           (case activate rest mi' of
              Inl e \<Rightarrow> Inl e
            | Inr m' \<Rightarrow> Inr (m'\<lparr>schedule_steps := schedule_steps m' + 1\<rparr>)) \<and>
         (before = [] \<longrightarrow> mi = m) \<and>
         ((\<exists>c. Celda c \<in> set (contents (grid mi) (pos mi i)) \<and> sucia mi c) \<longrightarrow>
            pos mi' = pos mi \<and> movimientos mi' = movimientos mi \<and> grid mi' = grid mi \<and>
            (\<forall>c. sucia mi' c \<longleftrightarrow> sucia mi c \<and> Celda c \<notin> set (contents (grid mi) (pos mi i)))) \<and>
         (\<not> (\<exists>c. Celda c \<in> set (contents (grid mi) (pos mi i)) \<and> sucia mi c) \<longrightarrow>
            sucia mi' = sucia mi \<and>
            (\<not> (\<exists>q. moore_free mi i q) \<and> mi' = mi \<or>
             moore_free mi i (pos mi' i) \<and> movimientos mi' i = movimientos mi i + 1)) \<and>
         two_phase_round [i] mi = activate [i] mi \<and>
         (\<forall>s p. contar_celdas_limpias s = Inr p \<longrightarrow> p < 100 \<longrightarrow>
            m = s\<lparr>datacollector := datacollector s @ [(p, contar_movimientos s)]\<rparr> \<longrightarrow>
            step s = schedule_step m \<and>
            (\<forall>rows cols agentes sucias ps rnd m0 n.
               create rows cols agentes sucias ps rnd = Inr m0 \<longrightarrow> steps n m0 = Inr s \<longrightarrow>
               before @ i # rest = [0..<nat agentes]))"
proof -
  let ?sucio = "\<exists>c. Celda c \<in> set (contents (grid mi) (pos mi i)) \<and> sucia mi c"
  have a: "schedule_step m =
           (case activate rest mi' of
              Inl e \<Rightarrow> Inl e
            | Inr m' \<Rightarrow> Inr (m'\<lparr>schedule_steps := schedule_steps m' + 1\<rparr>))"
    by (rule schedule_step_split [OF assms])
  have b: "before = [] \<longrightarrow> mi = m"
    using assms(2) by (auto simp: activate_def)
  have dirty: "list_ex (es_celda_sucia mi) (contents (grid mi) (pos mi i)) \<longleftrightarrow> ?sucio"
    by (rule list_ex_es_celda_sucia)
  have none: "valid_moves mi i = [] \<longleftrightarrow> \<not> (\<exists>q. moore_free mi i q)"
  proof -
    have "valid_moves mi i = [] \<longleftrightarrow> set (valid_moves mi i) = {}" by simp
    then show ?thesis unfolding set_valid_moves_moore by blast
  qed
  from assms(3) have c: "(?sucio \<longrightarrow>
            pos mi' = pos mi \<and> movimientos mi' = movimientos mi \<and> grid mi' = grid mi \<and>
            (\<forall>c. sucia mi' c \<longleftrightarrow> sucia mi c \<and> Celda c \<notin> set (contents (grid mi) (pos mi i)))) \<and>
         (\<not> ?sucio \<longrightarrow>
            sucia mi' = sucia mi \<and>
            (\<not> (\<exists>q. moore_free mi i q) \<and> mi' = mi \<or>
             moore_free mi i (pos mi' i) \<and> movimientos mi' i = movimientos mi i + 1))"
  proof (cases rule: Limpiador_step_cases)
    case limpia
    then have "?sucio" using dirty by blast
    then show ?thesis by (simp add: limpia(2))
  next
    case queda
    then have "\<not> ?sucio" "\<not> (\<exists>q. moore_free mi i q)" "mi' = mi"
      using dirty none by blast+
    then show ?thesis by blast
  next
    case (mueve nueva)
    have "nueva \<in> set (valid_moves mi i)"
      unfolding mueve(3) by (rule nueva_facts(1) [OF mueve(2)])
    then have mf: "moore_free mi i nueva" unfolding set_valid_moves_moore by simp
    have "\<not> ?sucio" using mueve(1) dirty by blast
    moreover have "sucia mi' = sucia mi" "pos mi' i = nueva"
      "movimientos mi' i = movimientos mi i + 1"
      by (simp_all add: mueve(5))
    ultimately show ?thesis using mf by blast
  qed
  have d: "two_phase_round [i] mi = activate [i] mi" by (rule two_phase_round_single)
  have e: "step s = schedule_step m \<and>
            (\<forall>rows cols agentes sucias ps rnd m0 n.
               create rows cols agentes sucias ps rnd = Inr m0 \<longrightarrow> steps n m0 = Inr s \<longrightarrow>
               before @ i # rest = [0..<nat agentes])"
    if p: "contar_celdas_limpias s = Inr p" "p < 100"
      and m: "m = s\<lparr>datacollector := datacollector s @ [(p, contar_movimientos s)]\<rparr>" for s p
  proof
    show "step s = schedule_step m" unfolding m by (rule step_round [OF p])
    show "\<forall>rows cols agentes sucias ps rnd m0 n.
               create rows cols agentes sucias ps rnd = Inr m0 \<longrightarrow> steps n m0 = Inr s \<longrightarrow>
               before @ i # rest = [0..<nat agentes]"
    proof (intro allI impI)
      fix rows cols agentes sucias :: int and ps rnd m0 n
      assume c0: "create rows cols agentes sucias ps rnd = Inr m0" and run: "steps n m0 = Inr s"
      have "schedule_agents s = schedule_agents m0"
        by (rule evolvesD(3) [OF steps_evolves [OF run]])
      moreover have "schedule_agents m0 = [0..<nat agentes]" by (rule create_InrD(10) [OF c0])
      moreover have "schedule_agents m = schedule_agents s" by (simp add: m)
      ultimately show "before @ i # rest = [0..<nat agentes]" using assms(1) by simp
    qed
  qed
  show ?thesis using a b c d e by blast
qed

text \<open>
  The theorem in the first step of two cleaners that start on the only dirty cell of a
  2 by 2 room: the cell is dirty before the round, cleaner 0 cleans it, and cleaner 1,
  deciding on what cleaner 0 left, finds it clean and moves; the step's result is what
  cleaner 1 left, with one more round counted.
\<close>

theorem round_is_sequential_witness:
  "returns (create 2 2 2 1 [3] rnd_zero) (\<lambda>s.
     contar_celdas_limpias s = Inr 0 \<and>
     schedule_agents s = [0, 1] \<and>
     (\<exists>c. Celda c \<in> set (contents (grid s) (pos s 1)) \<and> sucia s c) \<and>
     returns (activate [0] (s\<lparr>datacollector := datacollector s @ [(0, contar_movimientos s)]\<rparr>))
       (\<lambda>mi. \<not> (\<exists>c. Celda c \<in> set (contents (grid mi) (pos mi 1)) \<and> sucia mi c) \<and>
         returns (Limpiador_step 1 mi) (\<lambda>mi'.
           moore_free mi 1 (pos mi' 1) \<and> movimientos mi' 1 = movimientos mi 1 + 1 \<and>
           returns (step s) (\<lambda>s'.
             pos s' = pos mi' \<and> movimientos s' = movimientos mi' \<and>
             schedule_steps s' = schedule_steps mi' + 1))))"
proof -
  have ev: "returns (create 2 2 2 1 [3] rnd_zero) (\<lambda>s.
     contar_celdas_limpias s = Inr 0 \<and> schedule_agents s = [0, 1] \<and>
     list_ex (es_celda_sucia s) (contents (grid s) (pos s 1)) \<and>
     returns (activate [0] (s\<lparr>datacollector := datacollector s @ [(0, contar_movimientos s)]\<rparr>))
       (\<lambda>mi. \<not> list_ex (es_celda_sucia mi) (contents (grid mi) (pos mi 1)) \<and>
         valid_moves mi 1 \<noteq> [] \<and>
         returns (Limpiador_step 1 mi) (\<lambda>mi'. True)))"
    by code_simp
  then obtain s mi mi' where r: "create 2 2 2 1 [3] rnd_zero = Inr s"
    "contar_celdas_limpias s = Inr 0" "schedule_agents s = [0, 1]"
    "list_ex (es_celda_sucia s) (contents (grid s) (pos s 1))"
    "activate [0] (s\<lparr>datacollector := datacollector s @ [(0, contar_movimientos s)]\<rparr>) = Inr mi"
    "\<not> list_ex (es_celda_sucia mi) (contents (grid mi) (pos mi 1))"
    "valid_moves mi 1 \<noteq> []" "Limpiador_step 1 mi = Inr mi'"
    by (elim returnsE conjE)
  define m where "m = s\<lparr>datacollector := datacollector s @ [(0, contar_movimientos s)]\<rparr>"
  have o: "schedule_agents m = [0] @ 1 # []" by (simp add: m_def r(3))
  note t = round_is_sequential [OF o r(5) [folded m_def] r(8)]
  have d0: "\<exists>c. Celda c \<in> set (contents (grid s) (pos s 1)) \<and> sucia s c"
    using r(4) list_ex_es_celda_sucia by blast
  have d1: "\<not> (\<exists>c. Celda c \<in> set (contents (grid mi) (pos mi 1)) \<and> sucia mi c)"
    using r(6) list_ex_es_celda_sucia by blast
  have ne: "\<exists>q. moore_free mi 1 q"
  proof -
    from r(7) obtain q where "q \<in> set (valid_moves mi 1)" by (cases "valid_moves mi 1") auto
    then show ?thesis unfolding set_valid_moves_moore by blast
  qed
  have mv: "moore_free mi 1 (pos mi' 1) \<and> movimientos mi' 1 = movimientos mi 1 + 1"
    using t d1 ne by blast
  have "step s = schedule_step m"
    using t r(2) m_def by simp
  also have "\<dots> = Inr (mi'\<lparr>schedule_steps := schedule_steps mi' + 1\<rparr>)"
    using t by (simp add: activate_def)
  finally have st: "step s = Inr (mi'\<lparr>schedule_steps := schedule_steps mi' + 1\<rparr>)" .
  show ?thesis
    using r(1,2,3,5,8) d0 d1 mv st by simp
qed

text \<open>
  C1 as stated fails. Same room: before the round both cleaners stand on the dirty cell.
  In the scheduler's order \<open>[0, 1]\<close> cleaner 0 cleans and cleaner 1 moves to \<open>(0, 0)\<close>; in
  the order \<open>[1, 0]\<close> cleaner 1 cleans and cleaner 0 moves; in the two-phase round both
  decide to clean and nobody moves. The three resulting states differ.
\<close>

theorem round_order_counterexample:
  "returns (create 2 2 2 1 [3] rnd_zero) (\<lambda>m.
     schedule_agents m = [0, 1] \<and>
     list_ex (es_celda_sucia m) (contents (grid m) (pos m 0)) \<and>
     list_ex (es_celda_sucia m) (contents (grid m) (pos m 1)) \<and>
     returns (activate [0, 1] m) (\<lambda>a. returns (activate [1, 0] m) (\<lambda>b.
       returns (two_phase_round [0, 1] m) (\<lambda>c.
         movimientos a 0 = 0 \<and> movimientos a 1 = 1 \<and> pos a 1 = (0, 0) \<and>
         movimientos b 0 = 1 \<and> movimientos b 1 = 0 \<and> pos b 1 = (1, 1) \<and>
         movimientos c 0 = 0 \<and> movimientos c 1 = 0 \<and> pos c 1 = (1, 1)))))"
  by code_simp

end
